theory Spec2Isabelle
  imports Complex_Main "HOL-Library.Word" "HOL-Library.Char_ord" "HOL-Library.List_Lexorder"
begin

section \<open>Face attendance system: liveness, matching, punch state, registration\<close>

text \<open>
  A shallow embedding of \<^verbatim>\<open>app.py\<close>. Python floats are read as real numbers
  (\<^verbatim>\<open>float('inf')\<close> as an absent bound), the SQLite tables as lists of rows in rowid
  order, the files of face images as a map from paths to images beside the set of
  directories that exist, and the wall clock as a number of seconds since the epoch
  that each request is given.
\<close>

subsection \<open>Images\<close>

text \<open>
  A frame is what \<^verbatim>\<open>cv2.imdecode(_, IMREAD_COLOR)\<close> yields: rows of pixels, each
  pixel three bytes in the order blue, green, red. An undecodable upload yields
  \<^verbatim>\<open>None\<close>, written here as the frame without rows.
\<close>

type_synonym pixel = "8 word \<times> 8 word \<times> 8 word"
type_synonym frame = "pixel list list"

datatype error = CvError | TypeError

definition valid_frame :: "frame \<Rightarrow> bool" where
  "valid_frame f \<longleftrightarrow> f \<noteq> [] \<and> hd f \<noteq> [] \<and> list_all (\<lambda>r. length r = length (hd f)) f"

text \<open>\<^verbatim>\<open>frame[:, :, k]\<close>, flattened: the values of one colour channel.\<close>

definition channel0 :: "frame \<Rightarrow> real list" where
  "channel0 f = map (\<lambda>p. real (unat (fst p))) (concat f)"

definition channel1 :: "frame \<Rightarrow> real list" where
  "channel1 f = map (\<lambda>p. real (unat (fst (snd p)))) (concat f)"

definition channel2 :: "frame \<Rightarrow> real list" where
  "channel2 f = map (\<lambda>p. real (unat (snd (snd p)))) (concat f)"

text \<open>numpy's \<^verbatim>\<open>mean\<close>, \<^verbatim>\<open>var\<close> and \<^verbatim>\<open>std\<close> of the flattened array.\<close>

definition np_mean :: "real list \<Rightarrow> real" where
  "np_mean xs = sum_list xs / real (length xs)"

definition np_var :: "real list \<Rightarrow> real" where
  "np_var xs = np_mean (map (\<lambda>x. (x - np_mean xs)\<^sup>2) xs)"

definition np_std :: "real list \<Rightarrow> real" where
  "np_std xs = sqrt (np_var xs)"

text \<open>
  \<^verbatim>\<open>cv2.cvtColor(frame, COLOR_BGR2GRAY)\<close>: each pixel on its own. For bytes OpenCV 4
  computes the weights 0.299 R + 0.587 G + 0.114 B in fixed point, with 15 fraction
  bits and rounding to nearest.
\<close>

definition bgr2gray :: "pixel \<Rightarrow> nat" where
  "bgr2gray p =
     (case p of (b, g, r) \<Rightarrow>
        (3735 * unat b + 19235 * unat g + 9798 * unat r + 16384) div 32768)"

definition cvtColor :: "frame \<Rightarrow> nat list list" where
  "cvtColor f = map (map bgr2gray) f"

text \<open>
  \<^verbatim>\<open>cv2.Laplacian(gray, CV_64F)\<close> with its default aperture: the kernel
  (0 1 0 / 1 -4 1 / 0 1 0), and the default border, which mirrors the image about its
  edge pixel (a one-pixel side repeats that pixel).
\<close>

definition borderInterpolate :: "int \<Rightarrow> nat \<Rightarrow> nat" where
  "borderInterpolate p len =
     (if 0 \<le> p \<and> p < int len then nat p
      else if len = 1 then 0
      else if p < 0 then nat (- p)
      else nat (2 * int len - 2 - p))"

definition gray_at :: "nat list list \<Rightarrow> int \<Rightarrow> int \<Rightarrow> int" where
  "gray_at g i j =
     int (g ! borderInterpolate i (length g) ! borderInterpolate j (length (hd g)))"

definition Laplacian :: "nat list list \<Rightarrow> int list list" where
  "Laplacian g =
     map (\<lambda>i. map (\<lambda>j. gray_at g (i - 1) j + gray_at g (i + 1) j
                        + gray_at g i (j - 1) + gray_at g i (j + 1) - 4 * gray_at g i j)
                 (map int [0..<length (hd g)]))
         (map int [0..<length g])"

subsection \<open>Liveness\<close>

definition SPOOFING_THRESHOLD :: real where
  "SPOOFING_THRESHOLD = 1 / 100"

definition laplacian_var :: "frame \<Rightarrow> real" where
  "laplacian_var frame = np_var (map real_of_int (concat (Laplacian (cvtColor frame))))"

definition sharpness_score :: "frame \<Rightarrow> real" where
  "sharpness_score frame = min (laplacian_var frame / 1000) 1"

definition color_std :: "frame \<Rightarrow> real" where
  "color_std frame =
     np_std [np_std (channel0 frame), np_std (channel1 frame), np_std (channel2 frame)]"

text \<open>
  \<^verbatim>\<open>detect_liveness\<close>. On a frame without pixels \<^verbatim>\<open>cv2.cvtColor\<close> raises, which the
  callers catch.
\<close>

definition detect_liveness :: "frame \<Rightarrow> error + (bool \<times> real)" where
  "detect_liveness frame =
     (if \<not> valid_frame frame then Inl CvError
      else
        let liveness_score = (sharpness_score frame + min (color_std frame / 100) 1) / 2;
            is_live = liveness_score > SPOOFING_THRESHOLD
        in Inr (is_live, liveness_score))"

subsection \<open>The store\<close>

text \<open>
  The two tables of \<^verbatim>\<open>init_database\<close>, rows in rowid order, and the file system:
  the image files by path, and the directories in which a file can be created. Column
  \<^verbatim>\<open>user_id\<close> of the attendance table is the field \<open>punch_user_id\<close>. Timestamps
  are \<^verbatim>\<open>CURRENT_TIMESTAMP\<close> values, whole seconds.
\<close>

record user_row =
  user_id :: nat
  name :: string
  face_encoding_path :: string
  registered_date :: nat

record attendance_row =
  record_id :: nat
  punch_user_id :: nat
  punch_type :: string
  timestamp :: nat
  confidence_score :: real

record store =
  users :: "user_row list"
  attendance :: "attendance_row list"
  faces :: "string \<rightharpoonup> frame"
  dirs :: "string set"

text \<open>
  The state after start-up: empty tables, and the directories \<^verbatim>\<open>database\<close> and
  \<^verbatim>\<open>database/faces\<close> that the module creates when it is loaded.
\<close>

definition init_database :: store where
  "init_database = \<lparr>users = [], attendance = [], faces = Map.empty,
     dirs = {''database'', ''database/faces''}\<rparr>"

text \<open>\<^verbatim>\<open>AUTOINCREMENT\<close>: one more than the largest rowid; rows are never deleted.\<close>

definition next_rowid :: "nat list \<Rightarrow> nat" where
  "next_rowid ids = Suc (fold max ids 0)"

text \<open>
  \<^verbatim>\<open>register_user\<close>: the insert fails with \<^verbatim>\<open>IntegrityError\<close> on a name that a row
  already has (\<^verbatim>\<open>name TEXT UNIQUE\<close>), and the method returns \<^verbatim>\<open>None\<close>; otherwise
  it returns \<^verbatim>\<open>lastrowid\<close>.
\<close>

definition register_user :: "store \<Rightarrow> string \<Rightarrow> string \<Rightarrow> nat \<Rightarrow> nat option \<times> store" where
  "register_user db n face_path now =
     (if n \<in> set (map name (users db)) then (None, db)
      else
        let uid = next_rowid (map user_id (users db))
        in (Some uid,
            db\<lparr>users := users db @
              [\<lparr>user_id = uid, name = n, face_encoding_path = face_path,
                registered_date = now\<rparr>]\<rparr>))"

definition get_user_by_name :: "store \<Rightarrow> string \<Rightarrow> user_row option" where
  "get_user_by_name db n = find (\<lambda>u. name u = n) (users db)"

definition record_attendance :: "store \<Rightarrow> nat \<Rightarrow> string \<Rightarrow> real \<Rightarrow> nat \<Rightarrow> store" where
  "record_attendance db uid ptype confidence now =
     db\<lparr>attendance := attendance db @
       [\<lparr>record_id = next_rowid (map record_id (attendance db)), punch_user_id = uid,
         punch_type = ptype, timestamp = now, confidence_score = confidence\<rparr>]\<rparr>"

text \<open>\<^verbatim>\<open>DATE(timestamp)\<close>: the day a second falls in.\<close>

definition date_of :: "nat \<Rightarrow> nat" where
  "date_of t = t div 86400"

text \<open>
  \<^verbatim>\<open>get_today_attendance\<close>: the rows of the user dated today,
  \<^verbatim>\<open>ORDER BY timestamp DESC\<close>. SQLite scans the table in rowid order and sorts the
  matching rows by the key alone, so rows with the same timestamp stay in rowid order:
  a stable sort on the descending key.
\<close>

definition get_today_attendance :: "store \<Rightarrow> nat \<Rightarrow> nat \<Rightarrow> (string \<times> nat) list" where
  "get_today_attendance db uid now =
     map (\<lambda>r. (punch_type r, timestamp r))
       (sort_key (\<lambda>r. - int (timestamp r))
         (filter (\<lambda>r. punch_user_id r = uid \<and> date_of (timestamp r) = date_of now)
           (attendance db)))"

text \<open>
  \<^verbatim>\<open>get_all_users\<close>: both columns of the query are in the index that SQLite keeps
  for \<^verbatim>\<open>name TEXT UNIQUE\<close>, and SQLite answers from that index: the rows come in
  the order of their names, compared byte by byte.
\<close>

definition get_all_users :: "store \<Rightarrow> (nat \<times> string) list" where
  "get_all_users db = map (\<lambda>u. (user_id u, name u)) (sort_key name (users db))"

subsection \<open>Matching\<close>

text \<open>
  \<^verbatim>\<open>DeepFace.verify\<close> is given as a function of the probe and the reference image:
  a distance and the flag \<^verbatim>\<open>verified\<close>, or nothing when the call raises. It raises as
  well when the reference file does not exist.
\<close>

type_synonym verifier = "frame \<Rightarrow> frame \<Rightarrow> (real \<times> bool) option"

definition DeepFace_verify :: "verifier \<Rightarrow> store \<Rightarrow> frame \<Rightarrow> string \<Rightarrow> (real \<times> bool) option" where
  "DeepFace_verify verify db frame face_path =
     (case faces db face_path of None \<Rightarrow> None | Some img \<Rightarrow> verify frame img)"

text \<open>
  The loop variables \<^verbatim>\<open>best_match\<close> and \<^verbatim>\<open>best_distance\<close> are assigned together:
  \<open>None\<close> is the start (\<^verbatim>\<open>None\<close>, \<^verbatim>\<open>float('inf')\<close>), \<open>Some (m, d)\<close> a match and
  its distance.
\<close>

type_synonym best = "((nat \<times> string) \<times> real) option"

definition closer :: "real \<Rightarrow> best \<Rightarrow> bool" where
  "closer distance b = (case b of None \<Rightarrow> True | Some (m, best_distance) \<Rightarrow> distance < best_distance)"

text \<open>
  The loop over \<^verbatim>\<open>users\<close>. A name without a row makes \<^verbatim>\<open>user_data[2]\<close> raise outside
  the inner \<^verbatim>\<open>try\<close>, which ends the request.
\<close>

fun scan :: "verifier \<Rightarrow> store \<Rightarrow> frame \<Rightarrow> (nat \<times> string) list \<Rightarrow> best \<Rightarrow> error + best" where
  "scan verify db frame [] b = Inr b"
| "scan verify db frame ((uid, n) # rest) b =
     (case get_user_by_name db n of
        None \<Rightarrow> Inl TypeError
      | Some user_data \<Rightarrow>
          (case DeepFace_verify verify db frame (face_encoding_path user_data) of
             None \<Rightarrow> scan verify db frame rest b
           | Some (distance, verified) \<Rightarrow>
               if closer distance b \<and> verified
               then scan verify db frame rest (Some ((uid, n), distance))
               else scan verify db frame rest b))"

text \<open>
  What the comparison with one candidate of the gallery yields, and whether it raises.
  The loop reads the reference path from the first row with the candidate's name.
\<close>

definition candidate_outcome :: "verifier \<Rightarrow> store \<Rightarrow> frame \<Rightarrow> nat \<times> string \<Rightarrow> (real \<times> bool) option" where
  "candidate_outcome verify db frame c =
     (case get_user_by_name db (snd c) of
        None \<Rightarrow> None
      | Some user_data \<Rightarrow> DeepFace_verify verify db frame (face_encoding_path user_data))"

definition verify_raises :: "verifier \<Rightarrow> store \<Rightarrow> frame \<Rightarrow> nat \<times> string \<Rightarrow> bool" where
  "verify_raises verify db frame c =
     (case get_user_by_name db (snd c) of
        None \<Rightarrow> False
      | Some user_data \<Rightarrow> DeepFace_verify verify db frame (face_encoding_path user_data) = None)"

text \<open>The store without the users that a predicate on candidates marks.\<close>

definition remove_users :: "(nat \<times> string \<Rightarrow> bool) \<Rightarrow> store \<Rightarrow> store" where
  "remove_users P db = db\<lparr>users := filter (\<lambda>u. \<not> P (user_id u, name u)) (users db)\<rparr>"

subsection \<open>Punch state\<close>

definition next_punch_type :: "(string \<times> nat) list \<Rightarrow> string" where
  "next_punch_type today_records =
     (case today_records of
        [] \<Rightarrow> ''PUNCH-IN''
      | r # _ \<Rightarrow> if fst r = ''PUNCH-IN'' then ''PUNCH-OUT'' else ''PUNCH-IN'')"

subsection \<open>Recognition and registration\<close>

text \<open>The results: one constructor for each \<^verbatim>\<open>return\<close> of the two methods.\<close>

datatype auth_result =
    Spoof_detected real
  | No_registered_users
  | Face_not_recognized
  | Punched string string real real nat
  | Recognition_error

datatype reg_result =
    Liveness_check_failed real
  | User_already_exists
  | User_registered string nat real
  | Registration_error

definition recognize_face :: "verifier \<Rightarrow> store \<Rightarrow> frame \<Rightarrow> nat \<Rightarrow> auth_result \<times> store" where
  "recognize_face verify db frame now =
     (case detect_liveness frame of
        Inl e \<Rightarrow> (Recognition_error, db)
      | Inr (is_live, liveness_score) \<Rightarrow>
          if \<not> is_live then (Spoof_detected liveness_score, db)
          else if get_all_users db = [] then (No_registered_users, db)
          else
            (case scan verify db frame (get_all_users db) None of
               Inl e \<Rightarrow> (Recognition_error, db)
             | Inr None \<Rightarrow> (Face_not_recognized, db)
             | Inr (Some ((uid, n), best_distance)) \<Rightarrow>
                 let confidence = 1 - best_distance;
                     today_records = get_today_attendance db uid now;
                     ptype = next_punch_type today_records
                 in (Punched n ptype confidence liveness_score now,
                     record_attendance db uid ptype confidence now)))"

definition FACES_DIR :: string where
  "FACES_DIR = ''database/faces''"

text \<open>\<^verbatim>\<open>str\<close> of a non-negative integer.\<close>

fun str_nat :: "nat \<Rightarrow> string" where
  "str_nat n =
     (if n < 10 then [''0123456789'' ! n]
      else str_nat (n div 10) @ [''0123456789'' ! (n mod 10)])"

declare str_nat.simps [simp del]

text \<open>
  \<^verbatim>\<open>os.path.join\<close> of two components: a second component that begins with a slash
  replaces the first.
\<close>

definition os_path_join :: "string \<Rightarrow> string \<Rightarrow> string" where
  "os_path_join a b =
     (if b \<noteq> [] \<and> hd b = CHR ''/'' then b
      else if a = [] \<or> last a = CHR ''/'' then a @ b
      else a @ ''/'' @ b)"

definition face_path_of :: "string \<Rightarrow> nat \<Rightarrow> string" where
  "face_path_of n now = os_path_join FACES_DIR (n @ ''_'' @ str_nat now @ ''.jpg'')"

text \<open>
  The directory a path lies in: what precedes its last slash (\<^verbatim>\<open>.\<close> without a slash,
  the root for a slash at the front only).
\<close>

definition parent_dir :: "string \<Rightarrow> string" where
  "parent_dir p =
     (if CHR ''/'' \<notin> set p then ''.''
      else
        let d = rev (tl (dropWhile (\<lambda>c. c \<noteq> CHR ''/'') (rev p)))
        in if d = [] then ''/'' else d)"

text \<open>
  \<^verbatim>\<open>cv2.imwrite\<close> creates or replaces the file when its directory exists; otherwise
  it returns \<^verbatim>\<open>False\<close> without raising and nothing is written. The caller does not
  look at what it returns.
\<close>

definition imwrite :: "store \<Rightarrow> string \<Rightarrow> frame \<Rightarrow> store" where
  "imwrite db face_path frame =
     (if parent_dir face_path \<in> dirs db then db\<lparr>faces := (faces db)(face_path \<mapsto> frame)\<rparr>
      else db)"

definition register_face :: "store \<Rightarrow> frame \<Rightarrow> string \<Rightarrow> nat \<Rightarrow> reg_result \<times> store" where
  "register_face db frame n now =
     (case detect_liveness frame of
        Inl e \<Rightarrow> (Registration_error, db)
      | Inr (is_live, liveness_score) \<Rightarrow>
          if \<not> is_live then (Liveness_check_failed liveness_score, db)
          else
            let face_path = face_path_of n now;
                db1 = imwrite db face_path frame
            in (case register_user db1 n face_path now of
                  (None, db2) \<Rightarrow> (User_already_exists, db2)
                | (Some uid, db2) \<Rightarrow> (User_registered n uid liveness_score, db2)))"

subsection \<open>Requests\<close>

text \<open>
  The routes \<^verbatim>\<open>/register\<close> and \<^verbatim>\<open>/authenticate\<close>, one request after the other,
  each with the time at which it is served.
\<close>

datatype request = Register frame string | Authenticate frame

fun serve :: "verifier \<Rightarrow> store \<Rightarrow> request \<times> nat \<Rightarrow> store" where
  "serve verify db (Register frame n, now) = snd (register_face db frame n now)"
| "serve verify db (Authenticate frame, now) = snd (recognize_face verify db frame now)"

definition run :: "verifier \<Rightarrow> store \<Rightarrow> (request \<times> nat) list \<Rightarrow> store" where
  "run verify db reqs = foldl (serve verify) db reqs"

subsection \<open>The punches of a day\<close>

text \<open>
  The rows of one user dated today, in rowid order, and what it means for their punch
  types to alternate, beginning with \<^verbatim>\<open>PUNCH-IN\<close>.
\<close>

fun alternates :: "string list \<Rightarrow> bool" where
  "alternates [] = True"
| "alternates [p] = (p = ''PUNCH-IN'')"
| "alternates (p # q # ps) = (p = ''PUNCH-IN'' \<and> q = ''PUNCH-OUT'' \<and> alternates ps)"

definition today_rows :: "store \<Rightarrow> nat \<Rightarrow> nat \<Rightarrow> attendance_row list" where
  "today_rows db uid now =
     filter (\<lambda>r. punch_user_id r = uid \<and> date_of (timestamp r) = date_of now) (attendance db)"

subsection \<open>Sample inputs\<close>

text \<open>A black pixel beside a white one: sharp enough to pass the liveness check.\<close>

definition bw_frame :: frame where
  "bw_frame = [[(0, 0, 0), (255, 255, 255)]]"

text \<open>The mirrored frame: as sharp, and a different image.\<close>

definition wb_frame :: frame where
  "wb_frame = [[(255, 255, 255), (0, 0, 0)]]"

text \<open>Verifiers that answer every comparison alike.\<close>

definition accept_all :: verifier where
  "accept_all probe ref = Some (1 / 5, True)"

definition far_match :: verifier where
  "far_match probe ref = Some (3 / 2, True)"

text \<open>A verifier whose every call raises, and the predicate that marks every candidate.\<close>

definition raise_all :: verifier where
  "raise_all probe ref = None"

definition every_candidate :: "nat \<times> string \<Rightarrow> bool" where
  "every_candidate c = True"

text \<open>The store after \<^verbatim>\<open>alice\<close> has registered at second 100.\<close>

definition alice_row :: user_row where
  "alice_row = \<lparr>user_id = 1, name = ''alice'',
     face_encoding_path = ''database/faces/alice_100.jpg'', registered_date = 100\<rparr>"

definition alice_store :: store where
  "alice_store = \<lparr>users = [alice_row], attendance = [],
     faces = [''database/faces/alice_100.jpg'' \<mapsto> bw_frame],
     dirs = {''database'', ''database/faces''}\<rparr>"

text \<open>
  A verifier that tells the two sample images apart, and a store of three users: the
  reference of the first is the black-white frame, that of the second the mirrored
  one, and the file of the third is missing.
\<close>

definition by_reference :: verifier where
  "by_reference probe ref = (if ref = bw_frame then Some (3 / 10, True) else Some (1 / 10, True))"

definition bob_row :: user_row where
  "bob_row = \<lparr>user_id = 2, name = ''bob'',
     face_encoding_path = ''database/faces/bob_150.jpg'', registered_date = 150\<rparr>"

definition carol_row :: user_row where
  "carol_row = \<lparr>user_id = 3, name = ''carol'',
     face_encoding_path = ''database/faces/carol_160.jpg'', registered_date = 160\<rparr>"

definition trio_store :: store where
  "trio_store = \<lparr>users = [alice_row, bob_row, carol_row], attendance = [],
     faces = [''database/faces/alice_100.jpg'' \<mapsto> bw_frame,
              ''database/faces/bob_150.jpg'' \<mapsto> wb_frame],
     dirs = {''database'', ''database/faces''}\<rparr>"

text \<open>The predicate that marks the third user.\<close>

definition is_carol :: "nat \<times> string \<Rightarrow> bool" where
  "is_carol c = (c = (3, ''carol''))"

text \<open>
  The store of \<^verbatim>\<open>alice\<close> with one row of today whose punch type is neither of
  the two.
\<close>

definition lunch_store :: store where
  "lunch_store = alice_store\<lparr>attendance :=
     [\<lparr>record_id = 1, punch_user_id = 1, punch_type = ''LUNCH'', timestamp = 900,
       confidence_score = 4 / 5\<rparr>]\<rparr>"

text \<open>The store of \<^verbatim>\<open>alice\<close> after one, two and three punches, the first two in one second.\<close>

definition punch1_store :: store where
  "punch1_store = record_attendance alice_store 1 ''PUNCH-IN'' (4 / 5) 1000"

definition punch2_store :: store where
  "punch2_store = record_attendance punch1_store 1 ''PUNCH-OUT'' (4 / 5) 1000"

definition punch3_store :: store where
  "punch3_store = record_attendance punch2_store 1 ''PUNCH-OUT'' (4 / 5) 1001"

subsection \<open>Facts about the statistics\<close>

lemma np_mean_nonneg: "(\<forall>x\<in>set xs. 0 \<le> x) \<Longrightarrow> 0 \<le> np_mean xs"
  by (simp add: np_mean_def sum_list_nonneg)

lemma np_var_nonneg: "0 \<le> np_var xs"
  unfolding np_var_def by (rule np_mean_nonneg) simp

lemma np_std_nonneg: "0 \<le> np_std xs"
  by (simp add: np_std_def np_var_nonneg)

lemma np_mean_const:
  assumes "\<forall>x\<in>set xs. x = c" and "xs \<noteq> []"
  shows "np_mean xs = c"
proof -
  have "xs = replicate (length xs) c"
    using assms(1) by (simp add: replicate_length_same)
  then have "sum_list xs = real (length xs) * c"
    by (metis sum_list_replicate)
  with assms(2) show ?thesis
    by (simp add: np_mean_def)
qed

lemma np_var_const:
  assumes "\<forall>x\<in>set xs. x = c"
  shows "np_var xs = 0"
proof (cases "xs = []")
  case True
  then show ?thesis by (simp add: np_var_def np_mean_def)
next
  case False
  then have m: "np_mean xs = c"
    using assms by (rule_tac np_mean_const) auto
  have "\<forall>y\<in>set (map (\<lambda>x. (x - np_mean xs)\<^sup>2) xs). y = 0"
    using assms m by auto
  moreover have "map (\<lambda>x. (x - np_mean xs)\<^sup>2) xs \<noteq> []"
    using False by simp
  ultimately show ?thesis
    unfolding np_var_def by (rule np_mean_const)
qed

lemma np_std_const: "\<forall>x\<in>set xs. x = c \<Longrightarrow> np_std xs = 0"
  by (simp add: np_std_def np_var_const)

lemma sharpness_score_range: "0 \<le> sharpness_score f \<and> sharpness_score f \<le> 1"
  by (simp add: sharpness_score_def laplacian_var_def np_var_nonneg)

lemma color_std_nonneg: "0 \<le> color_std f"
  by (simp add: color_std_def np_std_nonneg)

subsection \<open>Liveness of particular frames\<close>

lemma borderInterpolate_less:
  "0 < len \<Longrightarrow> - 1 \<le> p \<Longrightarrow> p \<le> int len \<Longrightarrow> borderInterpolate p len < len"
  by (auto simp: borderInterpolate_def)

lemma gray_at_const:
  assumes "0 < h" "0 < w" "- 1 \<le> i" "i \<le> int h" "- 1 \<le> j" "j \<le> int w"
  shows "gray_at (replicate h (replicate w y)) i j = int y"
proof -
  have "borderInterpolate i h < h" "borderInterpolate j w < w"
    using assms by (simp_all add: borderInterpolate_less)
  moreover have "hd (replicate h (replicate w y)) = replicate w y"
    using assms(1) by (cases h) simp_all
  ultimately show ?thesis
    by (simp add: gray_at_def)
qed

lemma Laplacian_const:
  assumes "0 < h" "0 < w"
  shows "\<forall>x\<in>set (concat (Laplacian (replicate h (replicate w y)))). x = 0"
proof -
  have hd: "hd (replicate h (replicate w y)) = replicate w y"
    using assms(1) by (cases h) simp_all
  show ?thesis
    unfolding Laplacian_def hd using assms
    by (auto simp: gray_at_const)
qed

lemma constant_frame_replicate:
  assumes "valid_frame f" "\<forall>r\<in>set f. \<forall>p\<in>set r. p = c"
  shows "f = replicate (length f) (replicate (length (hd f)) c)"
proof -
  have "\<forall>r\<in>set f. r = replicate (length (hd f)) c"
  proof
    fix r assume r: "r \<in> set f"
    have "list_all (\<lambda>r. length r = length (hd f)) f"
      using assms(1) unfolding valid_frame_def by blast
    then have "length r = length (hd f)"
      using r unfolding list_all_iff by blast
    moreover have "\<forall>p\<in>set r. p = c"
      using assms(2) r by blast
    then have "replicate (length r) c = r"
      by (rule replicate_length_same)
    ultimately show "r = replicate (length (hd f)) c" by metis
  qed
  then have "replicate (length f) (replicate (length (hd f)) c) = f"
    by (rule replicate_length_same)
  then show ?thesis by (rule sym)
qed

lemma laplacian_var_const:
  assumes "0 < h" "0 < w"
  shows "laplacian_var (replicate h (replicate w c)) = 0"
  unfolding laplacian_var_def cvtColor_def
  using Laplacian_const [OF assms, of "bgr2gray c"]
  by (intro np_var_const [where c = 0]) auto

lemma color_std_const: "color_std (replicate h (replicate w c)) = 0"
proof -
  have "np_std (channel0 (replicate h (replicate w c))) = 0"
    by (rule np_std_const [where c = "real (unat (fst c))"]) (auto simp: channel0_def)
  moreover have "np_std (channel1 (replicate h (replicate w c))) = 0"
    by (rule np_std_const [where c = "real (unat (fst (snd c)))"]) (auto simp: channel1_def)
  moreover have "np_std (channel2 (replicate h (replicate w c))) = 0"
    by (rule np_std_const [where c = "real (unat (snd (snd c)))"]) (auto simp: channel2_def)
  ultimately show ?thesis
    by (simp add: color_std_def np_std_const [where c = 0])
qed

lemma cvtColor_bw_frame: "cvtColor bw_frame = [[0, 255]]"
  by (simp add: bw_frame_def cvtColor_def bgr2gray_def)

lemma Laplacian_bw: "Laplacian [[0, 255]] = [[510, - 510]]"
  by (simp add: Laplacian_def gray_at_def borderInterpolate_def upt_rec)

lemma np_var_bw: "np_var [510, - 510] = 260100"
  by (simp add: np_var_def np_mean_def)

lemma laplacian_var_bw_frame: "laplacian_var bw_frame = 260100"
  by (simp add: laplacian_var_def cvtColor_bw_frame Laplacian_bw np_var_bw)

lemma color_std_bw_frame: "color_std bw_frame = 0"
proof -
  have "channel1 bw_frame = channel0 bw_frame" "channel2 bw_frame = channel0 bw_frame"
    by (simp_all add: channel0_def channel1_def channel2_def bw_frame_def)
  then show ?thesis
    unfolding color_std_def
    by (intro np_std_const [where c = "np_std (channel0 bw_frame)"]) simp
qed

lemma detect_liveness_bw_frame: "detect_liveness bw_frame = Inr (True, 1 / 2)"
proof -
  have "valid_frame bw_frame" by (simp add: valid_frame_def bw_frame_def)
  then show ?thesis
    by (simp add: detect_liveness_def sharpness_score_def laplacian_var_bw_frame
        color_std_bw_frame SPOOFING_THRESHOLD_def)
qed

subsection \<open>The liveness score\<close>

text \<open>
  Claim C8. On every frame with pixels the liveness analysis returns, and returns a
  score between 0 and 1: the sharpness signal and the colour signal are each at least
  0 and at most 1, and the score is their plain average. The result is a function of
  the frame alone, and \<open>is_live\<close> says that the score exceeds the threshold.
\<close>

theorem detect_liveness_score_range:
  assumes "valid_frame f"
  shows "\<exists>s. detect_liveness f = Inr (SPOOFING_THRESHOLD < s, s)
           \<and> s = (sharpness_score f + min (color_std f / 100) 1) / 2
           \<and> 0 \<le> sharpness_score f \<and> sharpness_score f \<le> 1
           \<and> 0 \<le> min (color_std f / 100) 1 \<and> min (color_std f / 100) 1 \<le> 1
           \<and> 0 \<le> s \<and> s \<le> 1"
proof -
  have c: "0 \<le> min (color_std f / 100) 1" "min (color_std f / 100) 1 \<le> 1"
    using color_std_nonneg [of f] by simp_all
  have s: "0 \<le> sharpness_score f" "sharpness_score f \<le> 1"
    using sharpness_score_range [of f] by simp_all
  define v where "v = (sharpness_score f + min (color_std f / 100) 1) / 2"
  have r: "0 \<le> v" "v \<le> 1"
    using c s by (simp_all add: v_def)
  have d: "detect_liveness f = Inr (SPOOFING_THRESHOLD < v, v)"
    using assms by (simp add: detect_liveness_def Let_def v_def)
  show ?thesis
    using c s r d v_def by blast
qed

theorem detect_liveness_score_range_witness:
  "valid_frame bw_frame \<and> (\<exists>s. detect_liveness bw_frame = Inr (SPOOFING_THRESHOLD < s, s)
           \<and> s = (sharpness_score bw_frame + min (color_std bw_frame / 100) 1) / 2
           \<and> 0 \<le> sharpness_score bw_frame \<and> sharpness_score bw_frame \<le> 1
           \<and> 0 \<le> min (color_std bw_frame / 100) 1 \<and> min (color_std bw_frame / 100) 1 \<le> 1
           \<and> 0 \<le> s \<and> s \<le> 1)"
proof -
  have v: "valid_frame bw_frame" by (simp add: valid_frame_def bw_frame_def)
  show ?thesis using v detect_liveness_score_range [OF v] by simp
qed

text \<open>
  Claim C9. A frame whose pixels all have the same colour gets the score 0 and is
  not live: the score must exceed the threshold 0.01 strictly.
\<close>

theorem detect_liveness_constant_frame:
  assumes "valid_frame f" and "\<forall>r\<in>set f. \<forall>p\<in>set r. p = c"
  shows "detect_liveness f = Inr (False, 0)"
proof -
  define h w where "h = length f" and "w = length (hd f)"
  have f: "f = replicate h (replicate w c)"
    unfolding h_def w_def using assms by (rule constant_frame_replicate)
  have pos: "0 < h" "0 < w"
    using assms(1) by (simp_all add: valid_frame_def h_def w_def)
  have "sharpness_score f = 0"
    using pos by (simp add: f sharpness_score_def laplacian_var_const)
  moreover have "color_std f = 0"
    by (simp add: f color_std_const)
  ultimately show ?thesis
    using assms(1) by (simp add: detect_liveness_def SPOOFING_THRESHOLD_def)
qed

theorem detect_liveness_constant_frame_witness:
  "valid_frame [[(10, 20, 30)]] \<and> detect_liveness [[(10, 20, 30)]] = Inr (False, 0)"
  using detect_liveness_constant_frame [of "[[(10, 20, 30)]]" "(10, 20, 30)"]
  by (simp add: valid_frame_def)

subsection \<open>Recognition\<close>

lemma recognize_face_Punched:
  "recognize_face verify db frame now = (Punched n ptype c s t, db') \<longleftrightarrow>
     (\<exists>uid d. detect_liveness frame = Inr (True, s) \<and> get_all_users db \<noteq> []
        \<and> scan verify db frame (get_all_users db) None = Inr (Some ((uid, n), d))
        \<and> c = 1 - d \<and> ptype = next_punch_type (get_today_attendance db uid now)
        \<and> t = now \<and> db' = record_attendance db uid ptype c now)"
  by (auto simp: recognize_face_def Let_def split: sum.splits option.splits prod.splits if_splits)

lemma recognize_face_rejected:
  "recognize_face verify db frame now = (res, db') \<Longrightarrow>
     \<forall>n ptype c s t. res \<noteq> Punched n ptype c s t \<Longrightarrow> db' = db"
  by (auto simp: recognize_face_def Let_def split: sum.splits option.splits prod.splits if_splits)

lemma face_path_of_alice_200: "face_path_of ''alice'' 200 = ''database/faces/alice_200.jpg''"
  by (simp add: face_path_of_def os_path_join_def FACES_DIR_def str_nat.simps)

lemma face_path_of_alice_100: "face_path_of ''alice'' 100 = ''database/faces/alice_100.jpg''"
  by (simp add: face_path_of_def os_path_join_def FACES_DIR_def str_nat.simps)

lemma parent_dir_alice:
  "parent_dir ''database/faces/alice_100.jpg'' = ''database/faces''"
  "parent_dir ''database/faces/alice_200.jpg'' = ''database/faces''"
  by (simp_all add: parent_dir_def)

lemma register_alice:
  "register_face init_database bw_frame ''alice'' 100 = (User_registered ''alice'' 1 (1 / 2), alice_store)"
  by (simp add: register_face_def detect_liveness_bw_frame imwrite_def register_user_def
      init_database_def next_rowid_def face_path_of_alice_100 parent_dir_alice
      alice_store_def alice_row_def Let_def)

lemma scan_alice_accept:
  "scan accept_all alice_store bw_frame (get_all_users alice_store) None = Inr (Some ((1, ''alice''), 1 / 5))"
  by (simp add: get_all_users_def alice_store_def alice_row_def get_user_by_name_def
      DeepFace_verify_def accept_all_def closer_def)


lemma today_alice_empty: "get_today_attendance alice_store 1 1000 = []"
  by (simp add: get_today_attendance_def alice_store_def)

lemma today_lunch: "get_today_attendance lunch_store 1 1000 = [(''LUNCH'', 900)]"
  by (simp add: get_today_attendance_def lunch_store_def alice_store_def date_of_def)

lemma scan_lunch_accept:
  "scan accept_all lunch_store bw_frame (get_all_users lunch_store) None = Inr (Some ((1, ''alice''), 1 / 5))"
  by (simp add: get_all_users_def lunch_store_def alice_store_def alice_row_def get_user_by_name_def
      DeepFace_verify_def accept_all_def closer_def)

lemma recognize_lunch:
  "recognize_face accept_all lunch_store bw_frame 1000 =
     (Punched ''alice'' ''PUNCH-IN'' (4 / 5) (1 / 2) 1000,
      record_attendance lunch_store 1 ''PUNCH-IN'' (4 / 5) 1000)"
proof -
  have "get_all_users lunch_store \<noteq> []"
    by (simp add: get_all_users_def lunch_store_def alice_store_def)
  then show ?thesis
    by (simp add: recognize_face_def detect_liveness_bw_frame scan_lunch_accept
        today_lunch [unfolded One_nat_def] next_punch_type_def Let_def)
qed

text \<open>
  The punch written depends on the first row of today's list alone, and only on
  whether its punch type is the string \<^verbatim>\<open>PUNCH-IN\<close>.
\<close>

lemma punch_type_from_first_record:
  assumes "recognize_face verify db frame now = (Punched n ptype c s t, db')"
    and "scan verify db frame (get_all_users db) None = Inr (Some ((uid, n'), d))"
    and "get_today_attendance db uid now = (p, ts) # rest"
  shows "ptype = (if p = ''PUNCH-IN'' then ''PUNCH-OUT'' else ''PUNCH-IN'')"
  using assms by (auto simp: recognize_face_Punched next_punch_type_def)

lemma record_attendance_frame:
  "users (record_attendance db uid ptype c now) = users db"
  "faces (record_attendance db uid ptype c now) = faces db"
  by (simp_all add: record_attendance_def)

lemma detect_liveness_flat: "detect_liveness [[(10, 20, 30)]] = Inr (False, 0)"
proof -
  have "valid_frame [[(10, 20, 30)]]" by (simp add: valid_frame_def)
  moreover have "\<forall>r\<in>set [[(10, 20, 30)]]. \<forall>p\<in>set r. p = (10, 20, 30)" by simp
  ultimately show ?thesis
    unfolding detect_liveness_def sharpness_score_def
    using laplacian_var_const [of 1 1 "(10, 20, 30)"] color_std_const [of 1 1 "(10, 20, 30)"]
    by (simp add: SPOOFING_THRESHOLD_def)
qed

lemma recognize_flat:
  "recognize_face accept_all alice_store [[(10, 20, 30)]] 1000 = (Spoof_detected 0, alice_store)"
  by (simp add: recognize_face_def detect_liveness_flat)

text \<open>
  Claim C5. A recognition that ends in a match appends exactly one attendance row,
  for the matched user, with the punch type, confidence and time it reports; one that
  ends in any other result leaves the store as it was. No request changes the user
  rows or the stored images, and the rows already in the attendance table stay as
  they are.
\<close>

theorem recognize_face_writes_one_record:
  assumes "recognize_face verify db frame now = (res, db')"
  shows "users db' = users db \<and> faces db' = faces db
     \<and> (\<forall>n ptype c s t. res = Punched n ptype c s t \<longrightarrow>
           (\<exists>row uid d. attendance db' = attendance db @ [row]
              \<and> scan verify db frame (get_all_users db) None = Inr (Some ((uid, n), d))
              \<and> punch_user_id row = uid \<and> punch_type row = ptype
              \<and> confidence_score row = c \<and> timestamp row = t))
     \<and> ((\<forall>n ptype c s t. res \<noteq> Punched n ptype c s t) \<longrightarrow> db' = db)"
proof (cases "\<exists>n ptype c s t. res = Punched n ptype c s t")
  case True
  then obtain n ptype c s t where res: "res = Punched n ptype c s t" by blast
  from assms [unfolded res recognize_face_Punched]
  obtain uid d where db': "db' = record_attendance db uid ptype c now" and t: "t = now"
    and sc: "scan verify db frame (get_all_users db) None = Inr (Some ((uid, n), d))"
    by blast
  have "attendance db' = attendance db @
      [\<lparr>record_id = next_rowid (map record_id (attendance db)), punch_user_id = uid,
        punch_type = ptype, timestamp = now, confidence_score = c\<rparr>]"
    by (simp add: db' record_attendance_def)
  then show ?thesis
    using res t sc by (simp add: db' record_attendance_frame)
next
  case False
  then have "db' = db"
    using recognize_face_rejected [OF assms] by blast
  with False show ?thesis by simp
qed

theorem recognize_face_writes_one_record_witness:
  "recognize_face accept_all lunch_store bw_frame 1000 =
     (Punched ''alice'' ''PUNCH-IN'' (4 / 5) (1 / 2) 1000,
      record_attendance lunch_store 1 ''PUNCH-IN'' (4 / 5) 1000)
   \<and> (\<exists>row. attendance (record_attendance lunch_store 1 ''PUNCH-IN'' (4 / 5) 1000)
              = attendance lunch_store @ [row]
         \<and> punch_type row = ''PUNCH-IN'' \<and> confidence_score row = 4 / 5 \<and> timestamp row = 1000)
   \<and> recognize_face accept_all alice_store [[(10, 20, 30)]] 1000 = (Spoof_detected 0, alice_store)"
proof -
  have "\<exists>row. attendance (record_attendance lunch_store 1 ''PUNCH-IN'' (4 / 5) 1000)
              = attendance lunch_store @ [row]
         \<and> punch_type row = ''PUNCH-IN'' \<and> confidence_score row = 4 / 5 \<and> timestamp row = 1000"
    using recognize_face_writes_one_record [OF recognize_lunch] by blast
  then show ?thesis
    using recognize_lunch recognize_flat by blast
qed

lemma scan_alice_far:
  "scan far_match alice_store bw_frame (get_all_users alice_store) None = Inr (Some ((1, ''alice''), 3 / 2))"
  by (simp add: get_all_users_def alice_store_def alice_row_def get_user_by_name_def
      DeepFace_verify_def far_match_def closer_def)

lemma recognize_far:
  "recognize_face far_match alice_store bw_frame 1000 =
     (Punched ''alice'' ''PUNCH-IN'' (- 1 / 2) (1 / 2) 1000,
      record_attendance alice_store 1 ''PUNCH-IN'' (- 1 / 2) 1000)"
proof -
  have "get_all_users alice_store \<noteq> []"
    by (simp add: get_all_users_def alice_store_def)
  then show ?thesis
    by (simp add: recognize_face_def detect_liveness_bw_frame scan_alice_far
        today_alice_empty [unfolded One_nat_def] next_punch_type_def Let_def)
qed

text \<open>
  Claim C2, as stated, fails: the confidence is not clamped. A verified match at
  distance 3/2 is reported and stored with confidence -1/2.
\<close>

theorem confidence_not_clamped_counterexample:
  "scan far_match alice_store bw_frame (get_all_users alice_store) None
     = Inr (Some ((1, ''alice''), 3 / 2))
   \<and> recognize_face far_match alice_store bw_frame 1000 =
       (Punched ''alice'' ''PUNCH-IN'' (- 1 / 2) (1 / 2) 1000,
        record_attendance alice_store 1 ''PUNCH-IN'' (- 1 / 2) 1000)
   \<and> (- 1 / 2 :: real) \<noteq> max 0 (min 1 (1 - 3 / 2)) \<and> \<not> (0 :: real) \<le> - 1 / 2"
  using scan_alice_far recognize_far by simp

text \<open>
  Claim C2, amended. On a match the confidence reported and the confidence stored in
  the new row are both 1 minus the distance of the match the scan ended with, without
  clamping; it lies between 0 and 1 exactly when that distance does.
\<close>

theorem confidence_is_one_minus_distance:
  assumes "recognize_face verify db frame now = (Punched n ptype c s t, db')"
  shows "\<exists>uid d. scan verify db frame (get_all_users db) None = Inr (Some ((uid, n), d))
     \<and> c = 1 - d \<and> confidence_score (last (attendance db')) = c
     \<and> ((0 \<le> c \<and> c \<le> 1) \<longleftrightarrow> (0 \<le> d \<and> d \<le> 1))"
proof -
  from assms [unfolded recognize_face_Punched]
  obtain uid d where sc: "scan verify db frame (get_all_users db) None = Inr (Some ((uid, n), d))"
    and c: "c = 1 - d" and db': "db' = record_attendance db uid ptype c now"
    by blast
  have "confidence_score (last (attendance db')) = c"
    by (simp add: db' record_attendance_def)
  moreover have "(0 \<le> c \<and> c \<le> 1) \<longleftrightarrow> (0 \<le> d \<and> d \<le> 1)"
    using c by auto
  ultimately show ?thesis
    using sc c by blast
qed

theorem confidence_is_one_minus_distance_witness:
  "recognize_face far_match alice_store bw_frame 1000 =
       (Punched ''alice'' ''PUNCH-IN'' (- 1 / 2) (1 / 2) 1000,
        record_attendance alice_store 1 ''PUNCH-IN'' (- 1 / 2) 1000)
   \<and> (\<exists>uid d. scan far_match alice_store bw_frame (get_all_users alice_store) None
          = Inr (Some ((uid, ''alice''), d))
        \<and> - 1 / 2 = 1 - d
        \<and> confidence_score (last (attendance (record_attendance alice_store 1 ''PUNCH-IN'' (- 1 / 2) 1000)))
            = - 1 / 2)"
  using confidence_is_one_minus_distance [OF recognize_far] recognize_far by blast

subsection \<open>Registration\<close>

lemma detect_liveness_wb_frame: "detect_liveness wb_frame = Inr (True, 1 / 2)"
proof -
  have v: "valid_frame wb_frame" by (simp add: valid_frame_def wb_frame_def)
  have "cvtColor wb_frame = [[255, 0]]"
    by (simp add: wb_frame_def cvtColor_def bgr2gray_def)
  moreover have "Laplacian [[255, 0]] = [[- 510, 510]]"
    by (simp add: Laplacian_def gray_at_def borderInterpolate_def upt_rec)
  moreover have "np_var [- 510, 510] = 260100"
    by (simp add: np_var_def np_mean_def)
  ultimately have l: "laplacian_var wb_frame = 260100"
    by (simp add: laplacian_var_def)
  have "channel1 wb_frame = channel0 wb_frame" "channel2 wb_frame = channel0 wb_frame"
    by (simp_all add: channel0_def channel1_def channel2_def wb_frame_def)
  then have c: "color_std wb_frame = 0"
    unfolding color_std_def
    by (intro np_std_const [where c = "np_std (channel0 wb_frame)"]) simp
  show ?thesis
    using v by (simp add: detect_liveness_def sharpness_score_def l c SPOOFING_THRESHOLD_def)
qed

lemma imwrite_tables:
  "users (imwrite db p f) = users db"
  "attendance (imwrite db p f) = attendance db"
  "dirs (imwrite db p f) = dirs db"
  by (simp_all add: imwrite_def)

lemma imwrite_faces:
  "faces (imwrite db p f) q = (if q = p \<and> parent_dir p \<in> dirs db then Some f else faces db q)"
  by (simp add: imwrite_def)

lemma register_face_taken:
  assumes "detect_liveness frame = Inr (True, s)" and "n \<in> set (map name (users db))"
  shows "register_face db frame n now =
    (User_already_exists, imwrite db (face_path_of n now) frame)"
  using assms by (simp add: register_face_def imwrite_tables register_user_def Let_def)

lemma register_face_fresh:
  assumes "detect_liveness frame = Inr (True, s)" and "n \<notin> set (map name (users db))"
  shows "register_face db frame n now =
    (User_registered n (next_rowid (map user_id (users db))) s,
     (imwrite db (face_path_of n now) frame)\<lparr>users := users db @
          [\<lparr>user_id = next_rowid (map user_id (users db)), name = n,
            face_encoding_path = face_path_of n now, registered_date = now\<rparr>]\<rparr>)"
  using assms by (simp add: register_face_def imwrite_tables register_user_def Let_def)

lemma alice_in_alice_store: "''alice'' \<in> set (map name (users alice_store))"
  by (simp add: alice_store_def alice_row_def)

lemma imwrite_alice_200:
  "imwrite alice_store ''database/faces/alice_200.jpg'' f =
     alice_store\<lparr>faces := (faces alice_store)(''database/faces/alice_200.jpg'' \<mapsto> f)\<rparr>"
  by (simp add: imwrite_def parent_dir_alice alice_store_def)

text \<open>
  Claim C3, as stated, fails: a registration under a name that is taken writes the
  image before the insert is refused. Here \<^verbatim>\<open>alice\<close> registers again at second 200:
  the call answers that the user exists, and the file \<^verbatim>\<open>alice_200.jpg\<close>, absent
  before, now holds the image, while the only user row points at \<^verbatim>\<open>alice_100.jpg\<close>.
\<close>

theorem register_face_taken_leaves_image_counterexample:
  "register_face alice_store bw_frame ''alice'' 200 =
     (User_already_exists,
      alice_store\<lparr>faces := (faces alice_store)(''database/faces/alice_200.jpg'' \<mapsto> bw_frame)\<rparr>)
   \<and> faces alice_store ''database/faces/alice_200.jpg'' = None
   \<and> map face_encoding_path (users alice_store) = [''database/faces/alice_100.jpg'']"
  using register_face_taken [OF detect_liveness_bw_frame alice_in_alice_store, of 200]
  by (simp add: face_path_of_alice_200 imwrite_alice_200) (simp add: alice_store_def alice_row_def)

text \<open>
  When the second registration falls in the second of the first, both paths are the
  same and the stored reference image is replaced.
\<close>

lemma register_face_same_second_overwrites:
  "faces alice_store ''database/faces/alice_100.jpg'' = Some bw_frame
   \<and> faces (snd (register_face alice_store wb_frame ''alice'' 100)) ''database/faces/alice_100.jpg''
       = Some wb_frame
   \<and> bw_frame \<noteq> wb_frame"
  using register_face_taken [OF detect_liveness_wb_frame alice_in_alice_store, of 100]
  by (simp add: face_path_of_alice_100 imwrite_faces parent_dir_alice)
     (simp add: alice_store_def bw_frame_def wb_frame_def)

text \<open>
  A name with a slash in it puts the file into a directory that does not exist, and a
  name that begins with a slash takes the file out of \<^verbatim>\<open>database/faces\<close>. In the
  first case nothing is written.
\<close>

lemma face_path_of_slash:
  "face_path_of ''a/b'' 5 = ''database/faces/a/b_5.jpg''"
  "parent_dir (face_path_of ''a/b'' 5) = ''database/faces/a''"
  "face_path_of ''/tmp/x'' 5 = ''/tmp/x_5.jpg''"
  "parent_dir (face_path_of ''/tmp/x'' 5) = ''/tmp''"
  by (simp_all add: face_path_of_def os_path_join_def FACES_DIR_def str_nat.simps parent_dir_def)

lemma register_face_taken_no_directory:
  assumes "detect_liveness frame = Inr (True, s)" and "n \<in> set (map name (users db))"
    and "parent_dir (face_path_of n now) \<notin> dirs db"
  shows "register_face db frame n now = (User_already_exists, db)"
  using assms by (simp add: register_face_taken imwrite_def)

text \<open>
  Claim C3, amended. A registration that passes the liveness check under a name that
  a user row already has answers that the user exists and leaves both tables as they
  were: no second row with that name, and every row keeps its reference path. No
  stored image at a path other than the one computed for the request is touched.
  Nothing is cleaned up after the refusal: when the computed path is not the reference
  of a user row and its directory exists, the image of the request is stored there
  afterwards, and no user row refers to it.
\<close>

theorem register_face_name_taken:
  assumes "detect_liveness frame = Inr (True, s)" and "n \<in> set (map name (users db))"
    and "register_face db frame n now = (r, db')"
  shows "r = User_already_exists \<and> users db' = users db \<and> attendance db' = attendance db
     \<and> (\<forall>p. p \<noteq> face_path_of n now \<longrightarrow> faces db' p = faces db p)
     \<and> (parent_dir (face_path_of n now) \<in> dirs db
          \<and> face_path_of n now \<notin> set (map face_encoding_path (users db))
        \<longrightarrow> faces db' (face_path_of n now) = Some frame
          \<and> face_path_of n now \<notin> set (map face_encoding_path (users db')))"
proof -
  have r: "r = User_already_exists" and db': "db' = imwrite db (face_path_of n now) frame"
    using register_face_taken [OF assms(1,2), of now] assms(3) by simp_all
  show ?thesis
    unfolding r db' by (simp add: imwrite_tables imwrite_faces)
qed

theorem register_face_name_taken_witness:
  "detect_liveness bw_frame = Inr (True, 1 / 2) \<and> ''alice'' \<in> set (map name (users alice_store))
   \<and> parent_dir (face_path_of ''alice'' 200) \<in> dirs alice_store
   \<and> face_path_of ''alice'' 200 \<notin> set (map face_encoding_path (users alice_store))
   \<and> fst (register_face alice_store bw_frame ''alice'' 200) = User_already_exists
   \<and> users (snd (register_face alice_store bw_frame ''alice'' 200)) = users alice_store
   \<and> faces (snd (register_face alice_store bw_frame ''alice'' 200)) (face_path_of ''alice'' 200)
        = Some bw_frame"
proof -
  have d: "parent_dir (face_path_of ''alice'' 200) \<in> dirs alice_store"
    by (simp add: face_path_of_alice_200 parent_dir_alice alice_store_def)
  have f: "face_path_of ''alice'' 200 \<notin> set (map face_encoding_path (users alice_store))"
    by (simp add: face_path_of_alice_200 alice_store_def alice_row_def)
  show ?thesis
    using register_face_name_taken [OF detect_liveness_bw_frame alice_in_alice_store
        prod.collapse [symmetric], of 200]
      detect_liveness_bw_frame alice_in_alice_store d f
    by blast
qed

lemma register_face_users:
  "users (snd (register_face db frame n now)) = users db
   \<or> (n \<notin> set (map name (users db))
      \<and> (\<exists>row. name row = n \<and> users (snd (register_face db frame n now)) = users db @ [row]))"
  by (auto simp: register_face_def imwrite_tables register_user_def Let_def
      split: sum.splits prod.splits)

lemma recognize_face_users: "users (snd (recognize_face verify db frame now)) = users db"
  by (auto simp: recognize_face_def record_attendance_def Let_def
      split: sum.splits option.splits prod.splits)

lemma serve_users:
  "users (serve verify db rq) = users db
   \<or> (\<exists>row. name row \<notin> set (map name (users db)) \<and> users (serve verify db rq) = users db @ [row])"
proof (cases rq)
  case (Pair r now)
  show ?thesis
  proof (cases r)
    case (Register frame n)
    then show ?thesis
      using Pair register_face_users [of db frame n now] by auto
  next
    case (Authenticate frame)
    then show ?thesis
      using Pair by (simp add: recognize_face_users)
  qed
qed

lemma serve_distinct_names:
  "distinct (map name (users db)) \<Longrightarrow> distinct (map name (users (serve verify db rq)))"
  using serve_users [of verify db rq] by auto

lemma serve_keeps_names:
  "n \<in> set (map name (users db)) \<Longrightarrow> n \<in> set (map name (users (serve verify db rq)))"
  using serve_users [of verify db rq] by auto

lemma run_distinct_names:
  "distinct (map name (users db)) \<Longrightarrow> distinct (map name (users (run verify db reqs)))"
  unfolding run_def
  by (induction reqs arbitrary: db) (simp_all add: serve_distinct_names)

lemma run_keeps_names:
  "n \<in> set (map name (users db)) \<Longrightarrow> n \<in> set (map name (users (run verify db reqs)))"
  unfolding run_def
proof (induction reqs arbitrary: db)
  case Nil
  then show ?case by simp
next
  case (Cons rq reqs)
  from Cons.prems have "n \<in> set (map name (users (serve verify db rq)))"
    by (rule serve_keeps_names)
  then have "n \<in> set (map name (users (foldl (serve verify) (serve verify db rq) reqs)))"
    by (rule Cons.IH)
  then show ?case by simp
qed

lemma reachable_distinct_names:
  "distinct (map name (users (run verify init_database reqs)))"
  by (rule run_distinct_names) (simp add: init_database_def)

lemma register_face_live_name:
  assumes "detect_liveness frame = Inr (True, s)"
  shows "n \<in> set (map name (users (snd (register_face db frame n now))))"
proof (cases "n \<in> set (map name (users db))")
  case True
  then show ?thesis by (simp add: register_face_taken [OF assms] imwrite_tables)
next
  case False
  then show ?thesis by (simp add: register_face_fresh [OF assms])
qed

lemma register_face_distinct_names:
  "distinct (map name (users db)) \<Longrightarrow> distinct (map name (users (snd (register_face db frame n now))))"
  using register_face_users [of db frame n now] by auto

lemma one_row_per_name:
  "distinct (map name us) \<Longrightarrow> n \<in> set (map name us) \<Longrightarrow> length (filter (\<lambda>u. name u = n) us) = 1"
proof (induction us)
  case Nil
  then show ?case by simp
next
  case (Cons u us)
  show ?case
  proof (cases "name u = n")
    case True
    then have "\<forall>v\<in>set us. name v \<noteq> n"
      using Cons.prems(1) by (metis distinct.simps(2) image_eqI list.simps(9) set_map)
    then have "filter (\<lambda>u. name u = n) us = []"
      by (simp add: filter_empty_conv)
    with True show ?thesis by simp
  next
    case False
    then show ?thesis
      using Cons by auto
  qed
qed

text \<open>
  Claim C7. Take a store in which names are distinct, as the \<^verbatim>\<open>UNIQUE\<close> column keeps
  them. After a first registration of a name that passes the liveness check, any
  later registration of that name that passes it, whatever requests are served in
  between, answers that the user exists and leaves the user rows as they were; at
  each of these moments exactly one user row has that name.
\<close>

theorem second_registration_is_refused:
  assumes "distinct (map name (users db))"
    and "detect_liveness f1 = Inr (True, s1)" and "detect_liveness f2 = Inr (True, s2)"
    and "register_face db f1 n t1 = (r1, db1)"
    and "run verify db1 reqs = db2"
    and "register_face db2 f2 n t2 = (r2, db3)"
  shows "r2 = User_already_exists \<and> users db3 = users db2
     \<and> length (filter (\<lambda>u. name u = n) (users db1)) = 1
     \<and> length (filter (\<lambda>u. name u = n) (users db2)) = 1
     \<and> length (filter (\<lambda>u. name u = n) (users db3)) = 1"
proof -
  have db1: "db1 = snd (register_face db f1 n t1)"
    using assms(4) by simp
  have d1: "distinct (map name (users db1))"
    unfolding db1 using assms(1) by (rule register_face_distinct_names)
  have n1: "n \<in> set (map name (users db1))"
    unfolding db1 using assms(2) by (rule register_face_live_name)
  have d2: "distinct (map name (users db2))"
    using run_distinct_names [OF d1, of verify reqs] assms(5) by simp
  have n2: "n \<in> set (map name (users db2))"
    using run_keeps_names [OF n1, of verify reqs] assms(5) by simp
  have r: "r2 = User_already_exists" "users db3 = users db2"
    using register_face_taken [OF assms(3) n2, of t2] assms(6) by (auto simp: imwrite_tables)
  show ?thesis
    using r one_row_per_name [OF d1 n1] one_row_per_name [OF d2 n2] by simp
qed


lemma recognize_alice:
  "recognize_face accept_all alice_store bw_frame 1000 =
     (Punched ''alice'' ''PUNCH-IN'' (4 / 5) (1 / 2) 1000,
      record_attendance alice_store 1 ''PUNCH-IN'' (4 / 5) 1000)"
proof -
  have "get_all_users alice_store \<noteq> []"
    by (simp add: get_all_users_def alice_store_def)
  then show ?thesis
    by (simp add: recognize_face_def detect_liveness_bw_frame scan_alice_accept
        today_alice_empty [unfolded One_nat_def] next_punch_type_def Let_def)
qed

lemma run_alice_once:
  "run accept_all alice_store [(Authenticate bw_frame, 1000)]
     = record_attendance alice_store 1 ''PUNCH-IN'' (4 / 5) 1000"
  by (simp add: run_def recognize_alice)

theorem second_registration_is_refused_witness:
  "distinct (map name (users init_database))
   \<and> register_face init_database bw_frame ''alice'' 100
        = (User_registered ''alice'' 1 (1 / 2), alice_store)
   \<and> run accept_all alice_store [(Authenticate bw_frame, 1000)]
        = record_attendance alice_store 1 ''PUNCH-IN'' (4 / 5) 1000
   \<and> fst (register_face (record_attendance alice_store 1 ''PUNCH-IN'' (4 / 5) 1000)
            wb_frame ''alice'' 200) = User_already_exists
   \<and> length (filter (\<lambda>u. name u = ''alice'')
        (users (snd (register_face (record_attendance alice_store 1 ''PUNCH-IN'' (4 / 5) 1000)
            wb_frame ''alice'' 200)))) = 1"
proof -
  have d: "distinct (map name (users init_database))"
    by (simp add: init_database_def)
  show ?thesis
    using second_registration_is_refused [OF d detect_liveness_bw_frame detect_liveness_wb_frame
        register_alice run_alice_once prod.collapse [symmetric]]
      d register_alice run_alice_once
    by simp
qed

subsection \<open>The scan of the gallery\<close>

lemma scan_skip:
  "verify_raises verify db frame c \<Longrightarrow> scan verify db frame (c # us) b = scan verify db frame us b"
  by (cases c) (auto simp: verify_raises_def split: option.splits)

lemma scan_cong_tail:
  assumes "\<And>b. scan verify db frame us b = scan verify db frame vs b"
  shows "scan verify db frame (c # us) b = scan verify db frame (c # vs) b"
  using assms by (cases c) (auto split: option.splits)

lemma scan_filter_raising:
  assumes "\<forall>c\<in>set us. P c \<longrightarrow> verify_raises verify db frame c"
  shows "scan verify db frame us b = scan verify db frame (filter (\<lambda>c. \<not> P c) us) b"
  using assms
proof (induction us arbitrary: b)
  case Nil
  then show ?case by simp
next
  case (Cons c us)
  have IH: "\<And>b. scan verify db frame us b = scan verify db frame (filter (\<lambda>c. \<not> P c) us) b"
    using Cons by simp
  show ?case
  proof (cases "P c")
    case True
    then have "verify_raises verify db frame c"
      using Cons.prems by simp
    then have "scan verify db frame (c # us) b = scan verify db frame us b"
      by (rule scan_skip)
    with True IH show ?thesis by simp
  next
    case False
    then show ?thesis
      using scan_cong_tail [of verify db frame us "filter (\<lambda>c. \<not> P c) us" c b] IH by simp
  qed
qed

lemma carol_raises: "verify_raises by_reference trio_store bw_frame (3, ''carol'')"
  by (simp add: verify_raises_def get_user_by_name_def trio_store_def alice_row_def bob_row_def
      carol_row_def DeepFace_verify_def)

lemma scan_step:
  assumes "get_user_by_name db (snd c) \<noteq> None"
  shows "scan verify db frame (c # us) b =
     (case candidate_outcome verify db frame c of
        None \<Rightarrow> scan verify db frame us b
      | Some (d, v) \<Rightarrow>
          if closer d b \<and> v then scan verify db frame us (Some (c, d))
          else scan verify db frame us b)"
  using assms by (cases c) (auto simp: candidate_outcome_def split: option.splits)

lemma closer_beats:
  "closer d b \<Longrightarrow> \<not> closer d' b \<Longrightarrow> d < d'"
  by (auto simp: closer_def split: option.splits)

lemma closer_less:
  "d < d0 \<Longrightarrow> closer d0 b \<Longrightarrow> closer d b"
  by (auto simp: closer_def split: option.splits)

lemma closer_Some [simp]: "closer d (Some (c, d0)) \<longleftrightarrow> d < d0"
  by (simp add: closer_def)

lemma closer_None [simp]: "closer d None"
  by (simp add: closer_def)

lemma scan_best:
  assumes "\<forall>c\<in>set us. get_user_by_name db (snd c) \<noteq> None"
  shows "(scan verify db frame us b = Inr b
          \<and> (\<forall>c\<in>set us. \<forall>d. candidate_outcome verify db frame c = Some (d, True) \<longrightarrow> \<not> closer d b))
       \<or> (\<exists>pre c post d. us = pre @ c # post
            \<and> scan verify db frame us b = Inr (Some (c, d))
            \<and> candidate_outcome verify db frame c = Some (d, True) \<and> closer d b
            \<and> (\<forall>c'\<in>set pre. \<forall>d'. candidate_outcome verify db frame c' = Some (d', True) \<longrightarrow> d < d')
            \<and> (\<forall>c'\<in>set post. \<forall>d'. candidate_outcome verify db frame c' = Some (d', True) \<longrightarrow> d \<le> d'))"
  using assms
proof (induction us arbitrary: b)
  case Nil
  then show ?case by simp
next
  case (Cons a us)
  let ?V = "\<lambda>c d. candidate_outcome verify db frame c = Some (d, True)"
  have res: "get_user_by_name db (snd a) \<noteq> None"
    and resus: "\<forall>c\<in>set us. get_user_by_name db (snd c) \<noteq> None"
    using Cons.prems by simp_all
  note step = scan_step [OF res, of verify frame us b]
  show ?case
  proof (cases "\<exists>d. ?V a d \<and> closer d b")
    case False
    then have sk: "scan verify db frame (a # us) b = scan verify db frame us b"
      unfolding step by (auto split: option.splits)
    from Cons.IH [OF resus, of b] show ?thesis
    proof (elim disjE conjE exE)
      assume "scan verify db frame us b = Inr b"
        and "\<forall>c\<in>set us. \<forall>d. ?V c d \<longrightarrow> \<not> closer d b"
      then show ?thesis using sk False by auto
    next
      fix pre c post d
      assume us: "us = pre @ c # post"
        and r: "scan verify db frame us b = Inr (Some (c, d))"
        and v: "?V c d" and cl: "closer d b"
        and pre: "\<forall>c'\<in>set pre. \<forall>d'. ?V c' d' \<longrightarrow> d < d'"
        and post: "\<forall>c'\<in>set post. \<forall>d'. ?V c' d' \<longrightarrow> d \<le> d'"
      have a: "\<forall>d'. ?V a d' \<longrightarrow> d < d'"
        using False cl closer_beats by blast
      have "a # us = (a # pre) @ c # post" using us by simp
      moreover have "scan verify db frame (a # us) b = Inr (Some (c, d))" using sk r by simp
      moreover have "\<forall>c'\<in>set (a # pre). \<forall>d'. ?V c' d' \<longrightarrow> d < d'"
        using a pre by simp
      ultimately show ?thesis using v cl post by blast
    qed
  next
    case True
    then obtain d0 where v0: "?V a d0" and cl0: "closer d0 b" by blast
    have tk: "scan verify db frame (a # us) b = scan verify db frame us (Some (a, d0))"
      unfolding step using v0 cl0 by simp
    from Cons.IH [OF resus, of "Some (a, d0)"] show ?thesis
    proof (elim disjE conjE exE)
      assume r: "scan verify db frame us (Some (a, d0)) = Inr (Some (a, d0))"
        and no: "\<forall>c\<in>set us. \<forall>d. ?V c d \<longrightarrow> \<not> closer d (Some (a, d0))"
      have "a # us = [] @ a # us" by simp
      moreover have "scan verify db frame (a # us) b = Inr (Some (a, d0))" using tk r by simp
      moreover have "\<forall>c'\<in>set us. \<forall>d'. ?V c' d' \<longrightarrow> d0 \<le> d'"
        using no by (simp add: not_less)
      moreover have "\<forall>c'\<in>set []. \<forall>d'. ?V c' d' \<longrightarrow> d0 < d'" by simp
      ultimately show ?thesis using v0 cl0 by blast
    next
      fix pre c post d
      assume us: "us = pre @ c # post"
        and r: "scan verify db frame us (Some (a, d0)) = Inr (Some (c, d))"
        and v: "?V c d" and cl: "closer d (Some (a, d0))"
        and pre: "\<forall>c'\<in>set pre. \<forall>d'. ?V c' d' \<longrightarrow> d < d'"
        and post: "\<forall>c'\<in>set post. \<forall>d'. ?V c' d' \<longrightarrow> d \<le> d'"
      have lt: "d < d0" using cl by simp
      have a: "\<forall>d'. ?V a d' \<longrightarrow> d < d'"
        using v0 lt by simp
      have "a # us = (a # pre) @ c # post" using us by simp
      moreover have "scan verify db frame (a # us) b = Inr (Some (c, d))" using tk r by simp
      moreover have "\<forall>c'\<in>set (a # pre). \<forall>d'. ?V c' d' \<longrightarrow> d < d'"
        using a pre by simp
      moreover have "closer d b" using lt cl0 by (rule closer_less)
      ultimately show ?thesis using v post by blast
    qed
  qed
qed


lemma scan_selects:
  assumes "\<forall>c\<in>set us. get_user_by_name db (snd c) \<noteq> None"
    and "\<exists>c\<in>set us. \<exists>d. candidate_outcome verify db frame c = Some (d, True)"
  shows "\<exists>pre c post d. us = pre @ c # post
            \<and> scan verify db frame us None = Inr (Some (c, d))
            \<and> candidate_outcome verify db frame c = Some (d, True)
            \<and> (\<forall>c'\<in>set pre. \<forall>d'. candidate_outcome verify db frame c' = Some (d', True) \<longrightarrow> d < d')
            \<and> (\<forall>c'\<in>set post. \<forall>d'. candidate_outcome verify db frame c' = Some (d', True) \<longrightarrow> d \<le> d')"
  using scan_best [OF assms(1), of verify frame None] assms(2)
  by (elim disjE) (simp, blast)

lemma scan_min:
  assumes "\<forall>c\<in>set us. get_user_by_name db (snd c) \<noteq> None"
    and "\<exists>c\<in>set us. \<exists>d. candidate_outcome verify db frame c = Some (d, True)"
  shows "\<exists>c d. scan verify db frame us None = Inr (Some (c, d)) \<and> c \<in> set us
            \<and> candidate_outcome verify db frame c = Some (d, True)
            \<and> (\<forall>c'\<in>set us. \<forall>d'. candidate_outcome verify db frame c' = Some (d', True) \<longrightarrow> d \<le> d')"
proof -
  from scan_selects [OF assms] obtain pre c post d where
    us: "us = pre @ c # post"
    and r: "scan verify db frame us None = Inr (Some (c, d))"
    and v: "candidate_outcome verify db frame c = Some (d, True)"
    and pre: "\<forall>c'\<in>set pre. \<forall>d'. candidate_outcome verify db frame c' = Some (d', True) \<longrightarrow> d < d'"
    and post: "\<forall>c'\<in>set post. \<forall>d'. candidate_outcome verify db frame c' = Some (d', True) \<longrightarrow> d \<le> d'"
    by blast
  have "\<forall>c'\<in>set us. \<forall>d'. candidate_outcome verify db frame c' = Some (d', True) \<longrightarrow> d \<le> d'"
  proof (intro ballI allI impI)
    fix c' d'
    assume c': "c' \<in> set us" and v': "candidate_outcome verify db frame c' = Some (d', True)"
    from c' us consider "c' \<in> set pre" | "c' = c" | "c' \<in> set post" by auto
    then show "d \<le> d'"
    proof cases
      case 1
      then show ?thesis using pre v' by fastforce
    next
      case 2
      then show ?thesis using v v' by simp
    next
      case 3
      then show ?thesis using post v' by blast
    qed
  qed
  moreover have "c \<in> set us" using us by simp
  ultimately show ?thesis using r v by blast
qed

lemma get_all_users_resolve:
  "\<forall>c\<in>set (get_all_users db). get_user_by_name db (snd c) \<noteq> None"
  by (auto simp: get_all_users_def get_user_by_name_def find_None_iff)

text \<open>
  Claim C4. Let every name of the gallery have a user row (as in the gallery that
  \<^verbatim>\<open>get_all_users\<close> returns, lemma \<open>get_all_users_resolve\<close>), and let some candidate
  be verified. Then the scan ends with a verified candidate and its distance; every
  verified candidate before it in the gallery is strictly farther, and every one after
  it is at least as far, so it is the first of the closest. In every other order of
  the same gallery the scan ends with a verified candidate at the same distance, and
  if the selected candidate is strictly closer than every other verified candidate,
  with that candidate.
\<close>

theorem scan_selects_closest_verified:
  assumes "\<forall>c\<in>set us. get_user_by_name db (snd c) \<noteq> None"
    and "\<exists>c\<in>set us. \<exists>d. candidate_outcome verify db frame c = Some (d, True)"
  shows "\<exists>pre c post d. us = pre @ c # post
            \<and> scan verify db frame us None = Inr (Some (c, d))
            \<and> candidate_outcome verify db frame c = Some (d, True)
            \<and> (\<forall>c'\<in>set pre. \<forall>d'. candidate_outcome verify db frame c' = Some (d', True) \<longrightarrow> d < d')
            \<and> (\<forall>c'\<in>set post. \<forall>d'. candidate_outcome verify db frame c' = Some (d', True) \<longrightarrow> d \<le> d')
            \<and> (\<forall>us'. set us' = set us \<longrightarrow>
                  (\<exists>c'. scan verify db frame us' None = Inr (Some (c', d))
                        \<and> candidate_outcome verify db frame c' = Some (d, True)))
            \<and> ((\<forall>c'\<in>set us. c' \<noteq> c \<longrightarrow>
                    (\<forall>d'. candidate_outcome verify db frame c' = Some (d', True) \<longrightarrow> d < d'))
                 \<longrightarrow> (\<forall>us'. set us' = set us \<longrightarrow> scan verify db frame us' None = Inr (Some (c, d))))"
proof -
  let ?V = "\<lambda>c d. candidate_outcome verify db frame c = Some (d, True)"
  from scan_selects [OF assms] obtain pre c post d where
    us: "us = pre @ c # post"
    and r: "scan verify db frame us None = Inr (Some (c, d))"
    and v: "?V c d"
    and pre: "\<forall>c'\<in>set pre. \<forall>d'. ?V c' d' \<longrightarrow> d < d'"
    and post: "\<forall>c'\<in>set post. \<forall>d'. ?V c' d' \<longrightarrow> d \<le> d'"
    by blast
  from scan_min [OF assms] r
  have least: "\<forall>c'\<in>set us. \<forall>d'. ?V c' d' \<longrightarrow> d \<le> d'" by auto
  have cin: "c \<in> set us" using us by simp
  have other: "\<exists>c' d'. scan verify db frame us' None = Inr (Some (c', d')) \<and> c' \<in> set us
                 \<and> ?V c' d' \<and> d' \<le> d" if eq: "set us' = set us" for us'
  proof -
    have a1: "\<forall>c\<in>set us'. get_user_by_name db (snd c) \<noteq> None"
      using assms(1) eq by simp
    have a2: "\<exists>c\<in>set us'. \<exists>d. ?V c d"
      using assms(2) eq by simp
    from scan_min [OF a1 a2] obtain c' d' where
      "scan verify db frame us' None = Inr (Some (c', d'))" "c' \<in> set us'" "?V c' d'"
      "\<forall>c''\<in>set us'. \<forall>d''. ?V c'' d'' \<longrightarrow> d' \<le> d''"
      by blast
    moreover from this have "d' \<le> d" using cin v eq by blast
    ultimately show ?thesis using eq by blast
  qed
  have same: "\<exists>c'. scan verify db frame us' None = Inr (Some (c', d)) \<and> ?V c' d"
    if eq: "set us' = set us" for us'
  proof -
    from other [OF eq] obtain c' d' where
      o: "scan verify db frame us' None = Inr (Some (c', d'))" "c' \<in> set us" "?V c' d'" "d' \<le> d"
      by blast
    then have "d \<le> d'" using least by blast
    with o have "d' = d" by simp
    with o show ?thesis by blast
  qed
  have uniq: "scan verify db frame us' None = Inr (Some (c, d))"
    if strict: "\<forall>c'\<in>set us. c' \<noteq> c \<longrightarrow> (\<forall>d'. ?V c' d' \<longrightarrow> d < d')"
      and eq: "set us' = set us" for us'
  proof -
    from other [OF eq] obtain c' d' where
      o: "scan verify db frame us' None = Inr (Some (c', d'))" "c' \<in> set us" "?V c' d'" "d' \<le> d"
      by blast
    have "c' = c"
    proof (rule ccontr)
      assume "c' \<noteq> c"
      then have "d < d'" using strict o(2,3) by blast
      with o(4) show False by simp
    qed
    moreover from this have "d' = d" using o(3) v by simp
    ultimately show ?thesis using o(1) by simp
  qed
  have c6: "\<forall>us'. set us' = set us \<longrightarrow>
      (\<exists>c'. scan verify db frame us' None = Inr (Some (c', d)) \<and> ?V c' d)"
    using same by blast
  have c7: "(\<forall>c'\<in>set us. c' \<noteq> c \<longrightarrow> (\<forall>d'. ?V c' d' \<longrightarrow> d < d'))
      \<longrightarrow> (\<forall>us'. set us' = set us \<longrightarrow> scan verify db frame us' None = Inr (Some (c, d)))"
    using uniq by blast
  show ?thesis
  proof (intro exI conjI)
    show "us = pre @ c # post" by (fact us)
    show "scan verify db frame us None = Inr (Some (c, d))" by (fact r)
    show "?V c d" by (fact v)
    show "\<forall>c'\<in>set pre. \<forall>d'. ?V c' d' \<longrightarrow> d < d'" by (fact pre)
    show "\<forall>c'\<in>set post. \<forall>d'. ?V c' d' \<longrightarrow> d \<le> d'" by (fact post)
    show "\<forall>us'. set us' = set us \<longrightarrow>
      (\<exists>c'. scan verify db frame us' None = Inr (Some (c', d)) \<and> ?V c' d)" by (fact c6)
    show "(\<forall>c'\<in>set us. c' \<noteq> c \<longrightarrow> (\<forall>d'. ?V c' d' \<longrightarrow> d < d'))
      \<longrightarrow> (\<forall>us'. set us' = set us \<longrightarrow> scan verify db frame us' None = Inr (Some (c, d)))"
      by (fact c7)
  qed
qed


lemma bw_wb_differ: "wb_frame \<noteq> bw_frame"
  by (simp add: bw_frame_def wb_frame_def)

lemma trio_outcomes:
  "candidate_outcome by_reference trio_store bw_frame (1, ''alice'') = Some (3 / 10, True)"
  "candidate_outcome by_reference trio_store bw_frame (2, ''bob'') = Some (1 / 10, True)"
  "candidate_outcome by_reference trio_store bw_frame (3, ''carol'') = None"
  by (simp_all add: candidate_outcome_def get_user_by_name_def trio_store_def alice_row_def
      bob_row_def carol_row_def DeepFace_verify_def by_reference_def bw_wb_differ)

lemma trio_resolve:
  "\<forall>c\<in>set [(1, ''alice''), (2, ''bob''), (3, ''carol'')]. get_user_by_name trio_store (snd c) \<noteq> None"
  by (simp add: get_user_by_name_def trio_store_def alice_row_def bob_row_def carol_row_def)

lemma scan_trio:
  "scan by_reference trio_store bw_frame [(1, ''alice''), (2, ''bob''), (3, ''carol'')] None
     = Inr (Some ((2, ''bob''), 1 / 10))"
  by (simp add: get_user_by_name_def trio_store_def alice_row_def bob_row_def carol_row_def
      DeepFace_verify_def by_reference_def bw_wb_differ closer_def)

theorem scan_selects_closest_verified_witness:
  "scan by_reference trio_store bw_frame [(1, ''alice''), (2, ''bob''), (3, ''carol'')] None
     = Inr (Some ((2, ''bob''), 1 / 10))
   \<and> scan by_reference trio_store bw_frame [(3, ''carol''), (2, ''bob''), (1, ''alice'')] None
     = Inr (Some ((2, ''bob''), 1 / 10))"
proof -
  let ?us = "[(1 :: nat, ''alice''), (2, ''bob''), (3, ''carol'')]"
  let ?V = "\<lambda>c d. candidate_outcome by_reference trio_store bw_frame c = Some (d, True)"
  have "(2, ''bob'') \<in> set ?us" by simp
  then have ex: "\<exists>c\<in>set ?us. \<exists>d. ?V c d"
    using trio_outcomes(2) by blast
  from scan_selects_closest_verified [OF trio_resolve ex] obtain c d where
    r: "scan by_reference trio_store bw_frame ?us None = Inr (Some (c, d))"
    and u: "(\<forall>c'\<in>set ?us. c' \<noteq> c \<longrightarrow> (\<forall>d'. ?V c' d' \<longrightarrow> d < d'))
      \<longrightarrow> (\<forall>us'. set us' = set ?us \<longrightarrow>
             scan by_reference trio_store bw_frame us' None = Inr (Some (c, d)))"
    by blast
  from r [unfolded scan_trio] have cd: "c = (2, ''bob'')" "d = 1 / 10"
    by simp_all
  have "\<forall>c'\<in>set ?us. c' \<noteq> c \<longrightarrow> (\<forall>d'. ?V c' d' \<longrightarrow> d < d')"
    by (simp add: cd trio_outcomes [unfolded One_nat_def])
  with u have "\<forall>us'. set us' = set ?us \<longrightarrow>
      scan by_reference trio_store bw_frame us' None = Inr (Some (c, d))"
    by blast
  moreover have "set [(3 :: nat, ''carol''), (2, ''bob''), (1, ''alice'')] = set ?us"
    by auto
  ultimately have "scan by_reference trio_store bw_frame [(3, ''carol''), (2, ''bob''), (1, ''alice'')] None
      = Inr (Some (c, d))"
    by blast
  then show ?thesis
    using scan_trio cd by simp
qed

subsection \<open>Candidates whose comparison raises\<close>

lemma gallery_trio: "get_all_users trio_store = [(1, ''alice''), (2, ''bob''), (3, ''carol'')]"
  by (simp add: get_all_users_def trio_store_def alice_row_def bob_row_def carol_row_def)

lemma raises_no_outcome:
  "verify_raises verify db frame c \<Longrightarrow> candidate_outcome verify db frame c = None"
  by (auto simp: verify_raises_def candidate_outcome_def split: option.splits)

lemma scan_returns:
  assumes "\<forall>c\<in>set us. get_user_by_name db (snd c) \<noteq> None"
  shows "\<exists>b'. scan verify db frame us b = Inr b'"
  using scan_best [OF assms, of verify frame b] by blast

lemma get_all_users_remove:
  "get_all_users (remove_users P db) = filter (\<lambda>c. \<not> P c) (get_all_users db)"
  by (simp add: get_all_users_def remove_users_def filter_sort [symmetric] filter_map comp_def)

lemma find_distinct_name:
  "distinct (map name us) \<Longrightarrow> u \<in> set us \<Longrightarrow> find (\<lambda>v. name v = name u) us = Some u"
proof (induction us)
  case Nil
  then show ?case by simp
next
  case (Cons a us)
  show ?case
  proof (cases "a = u")
    case True
    then show ?thesis by simp
  next
    case False
    then have u: "u \<in> set us" using Cons.prems(2) by simp
    then have "name a \<noteq> name u"
      using Cons.prems(1) by (metis distinct.simps(2) image_eqI list.simps(9) set_map)
    then show ?thesis
      using Cons.IH u Cons.prems(1) by simp
  qed
qed

lemma get_user_by_name_remove:
  assumes "distinct (map name (users db))" and "c \<in> set (get_all_users db)" and "\<not> P c"
  shows "get_user_by_name (remove_users P db) (snd c) = get_user_by_name db (snd c)"
proof -
  from assms(2) obtain u where u: "u \<in> set (users db)" and c: "c = (user_id u, name u)"
    by (auto simp: get_all_users_def)
  let ?keep = "filter (\<lambda>u. \<not> P (user_id u, name u)) (users db)"
  have "u \<in> set ?keep" using u c assms(3) by simp
  moreover have "distinct (map name ?keep)"
    using assms(1) by (rule distinct_map_filter)
  ultimately have "find (\<lambda>v. name v = name u) ?keep = Some u"
    by (rule find_distinct_name [rotated])
  moreover have "find (\<lambda>v. name v = name u) (users db) = Some u"
    using assms(1) u by (rule find_distinct_name)
  ultimately show ?thesis
    by (simp add: get_user_by_name_def remove_users_def c)
qed

lemma scan_cong_store:
  assumes "faces db1 = faces db2"
    and "\<forall>c\<in>set us. get_user_by_name db1 (snd c) = get_user_by_name db2 (snd c)"
  shows "scan verify db1 frame us b = scan verify db2 frame us b"
  using assms(2)
proof (induction us arbitrary: b)
  case Nil
  then show ?case by simp
next
  case (Cons c us)
  obtain uid n where c: "c = (uid, n)" by (cases c)
  have g: "get_user_by_name db1 n = get_user_by_name db2 n"
    using Cons.prems c by simp
  have IH: "\<And>b. scan verify db1 frame us b = scan verify db2 frame us b"
    using Cons by simp
  show ?case
    unfolding c by (simp add: g IH DeepFace_verify_def assms(1) split: option.splits)
qed


lemma recognize_face_fst:
  "fst (recognize_face verify db frame now) =
     (case detect_liveness frame of
        Inl e \<Rightarrow> Recognition_error
      | Inr (is_live, liveness_score) \<Rightarrow>
          if \<not> is_live then Spoof_detected liveness_score
          else if get_all_users db = [] then No_registered_users
          else
            (case scan verify db frame (get_all_users db) None of
               Inl e \<Rightarrow> Recognition_error
             | Inr None \<Rightarrow> Face_not_recognized
             | Inr (Some ((uid, n), best_distance)) \<Rightarrow>
                 Punched n (next_punch_type (get_today_attendance db uid now))
                   (1 - best_distance) liveness_score now))"
  by (simp add: recognize_face_def Let_def split: sum.splits option.splits prod.splits)

lemma recognize_face_attendance:
  "attendance (snd (recognize_face verify db frame now)) =
     (case detect_liveness frame of
        Inl e \<Rightarrow> attendance db
      | Inr (is_live, liveness_score) \<Rightarrow>
          if \<not> is_live then attendance db
          else if get_all_users db = [] then attendance db
          else
            (case scan verify db frame (get_all_users db) None of
               Inl e \<Rightarrow> attendance db
             | Inr None \<Rightarrow> attendance db
             | Inr (Some ((uid, n), best_distance)) \<Rightarrow>
                 attendance db @
                   [\<lparr>record_id = next_rowid (map record_id (attendance db)), punch_user_id = uid,
                     punch_type = next_punch_type (get_today_attendance db uid now),
                     timestamp = now, confidence_score = 1 - best_distance\<rparr>]))"
  by (simp add: recognize_face_def record_attendance_def Let_def
      split: sum.splits option.splits prod.splits)

lemma remove_users_rest:
  "attendance (remove_users P db) = attendance db"
  "faces (remove_users P db) = faces db"
  "get_today_attendance (remove_users P db) uid now = get_today_attendance db uid now"
  by (simp_all add: remove_users_def get_today_attendance_def)

lemma scan_remove_users:
  assumes "distinct (map name (users db))"
    and "\<forall>c\<in>set (get_all_users db). P c \<longrightarrow> verify_raises verify db frame c"
  shows "scan verify (remove_users P db) frame (get_all_users (remove_users P db)) b
       = scan verify db frame (get_all_users db) b"
proof -
  let ?G = "get_all_users db"
  let ?G' = "filter (\<lambda>c. \<not> P c) ?G"
  have "\<forall>c\<in>set ?G'. get_user_by_name (remove_users P db) (snd c) = get_user_by_name db (snd c)"
    using get_user_by_name_remove [OF assms(1)] by simp
  then have "scan verify (remove_users P db) frame ?G' b = scan verify db frame ?G' b"
    by (intro scan_cong_store) (simp_all add: remove_users_rest)
  also have "\<dots> = scan verify db frame ?G b"
    using scan_filter_raising [OF assms(2), of b] by simp
  finally show ?thesis
    by (simp add: get_all_users_remove)
qed

lemma recognize_face_remove_users:
  assumes "distinct (map name (users db))"
    and "\<forall>c\<in>set (get_all_users db). P c \<longrightarrow> verify_raises verify db frame c"
    and "\<exists>c\<in>set (get_all_users db). \<not> P c"
  shows "fst (recognize_face verify (remove_users P db) frame now)
           = fst (recognize_face verify db frame now)"
    and "attendance (snd (recognize_face verify (remove_users P db) frame now))
           = attendance (snd (recognize_face verify db frame now))"
proof -
  have ne: "get_all_users db \<noteq> []" "get_all_users (remove_users P db) \<noteq> []"
    using assms(3) by (auto simp: get_all_users_remove filter_empty_conv)
  note sc = scan_remove_users [OF assms(1,2), of None]
  show "fst (recognize_face verify (remove_users P db) frame now)
           = fst (recognize_face verify db frame now)"
    unfolding recognize_face_fst sc
    by (simp add: ne remove_users_rest split: sum.splits prod.splits option.splits)
  show "attendance (snd (recognize_face verify (remove_users P db) frame now))
           = attendance (snd (recognize_face verify db frame now))"
    unfolding recognize_face_attendance sc
    by (simp add: ne remove_users_rest split: sum.splits prod.splits option.splits)
qed


lemma raise_all_raises: "verify_raises raise_all alice_store bw_frame (1, ''alice'')"
  by (simp add: verify_raises_def get_user_by_name_def alice_store_def alice_row_def
      DeepFace_verify_def raise_all_def)

lemma gallery_alice: "get_all_users alice_store = [(1, ''alice'')]"
  by (simp add: get_all_users_def alice_store_def alice_row_def)

lemma gallery_nobody: "get_all_users (remove_users every_candidate alice_store) = []"
  by (simp add: get_all_users_def remove_users_def every_candidate_def)

lemma scan_alice_raise:
  "scan raise_all alice_store bw_frame [(1, ''alice'')] None = Inr None"
  by (simp add: get_user_by_name_def alice_store_def alice_row_def DeepFace_verify_def
      raise_all_def)

text \<open>
  Claim C6, as stated, fails in its last clause when every candidate raises: the
  request ends with \<^verbatim>\<open>Face not recognized!\<close>, while on the gallery without the failing
  candidates, which is empty, it ends with \<^verbatim>\<open>No registered users found!\<close>.
\<close>

theorem all_candidates_raise_counterexample:
  "verify_raises raise_all alice_store bw_frame (1, ''alice'')
   \<and> get_all_users alice_store = [(1, ''alice'')]
   \<and> fst (recognize_face raise_all alice_store bw_frame 1000) = Face_not_recognized
   \<and> get_all_users (remove_users every_candidate alice_store) = []
   \<and> fst (recognize_face raise_all (remove_users every_candidate alice_store) bw_frame 1000)
       = No_registered_users"
proof -
  have "fst (recognize_face raise_all alice_store bw_frame 1000) = Face_not_recognized"
    unfolding recognize_face_fst gallery_alice scan_alice_raise
    by (simp add: detect_liveness_bw_frame)
  moreover have "fst (recognize_face raise_all (remove_users every_candidate alice_store)
      bw_frame 1000) = No_registered_users"
    unfolding recognize_face_fst gallery_nobody
    by (simp add: detect_liveness_bw_frame)
  ultimately show ?thesis
    using raise_all_raises gallery_alice gallery_nobody by blast
qed

text \<open>
  Claim C6, amended. Take a store in which names are distinct, and let \<open>P\<close> mark any
  candidates of the gallery whose comparison raises. The scan of the gallery never
  ends in an error, and from every state of the loop variables it ends exactly as the
  scan of the gallery without the marked candidates. Every other candidate is still
  compared: if a candidate is verified, the scan ends with a verified candidate that
  is not marked and is at least as close. If some candidate is not marked, the request
  gives the same result, and writes the same attendance rows, as on the store without
  the marked users. If every candidate is marked, a live request ends with
  \<^verbatim>\<open>Face not recognized!\<close>.
\<close>

theorem raising_candidates_are_skipped:
  assumes "distinct (map name (users db))"
    and "\<forall>c\<in>set (get_all_users db). P c \<longrightarrow> verify_raises verify db frame c"
  shows "(\<forall>b. \<exists>b'. scan verify db frame (get_all_users db) b = Inr b'
            \<and> scan verify db frame (filter (\<lambda>c. \<not> P c) (get_all_users db)) b = Inr b')
     \<and> (\<forall>c\<in>set (get_all_users db). \<forall>d.
          candidate_outcome verify db frame c = Some (d, True) \<longrightarrow>
          (\<exists>c' d'. scan verify db frame (get_all_users db) None = Inr (Some (c', d'))
             \<and> c' \<in> set (get_all_users db) \<and> \<not> P c'
             \<and> candidate_outcome verify db frame c' = Some (d', True) \<and> d' \<le> d))
     \<and> ((\<exists>c\<in>set (get_all_users db). \<not> P c) \<longrightarrow>
          fst (recognize_face verify (remove_users P db) frame now)
            = fst (recognize_face verify db frame now)
          \<and> attendance (snd (recognize_face verify (remove_users P db) frame now))
            = attendance (snd (recognize_face verify db frame now)))
     \<and> ((\<forall>c\<in>set (get_all_users db). P c) \<and> get_all_users db \<noteq> []
          \<and> (\<exists>s. detect_liveness frame = Inr (True, s)) \<longrightarrow>
          fst (recognize_face verify db frame now) = Face_not_recognized)"
proof (intro conjI allI ballI impI)
  fix b
  obtain b' where b': "scan verify db frame (get_all_users db) b = Inr b'"
    using scan_returns [where us = "get_all_users db" and db = db and verify = verify
        and frame = frame and b = b, OF get_all_users_resolve] by blast
  then show "\<exists>b'. scan verify db frame (get_all_users db) b = Inr b'
      \<and> scan verify db frame (filter (\<lambda>c. \<not> P c) (get_all_users db)) b = Inr b'"
    using scan_filter_raising [OF assms(2), of b] by simp
next
  fix c d
  assume c: "c \<in> set (get_all_users db)"
    and v: "candidate_outcome verify db frame c = Some (d, True)"
  then have ex: "\<exists>c\<in>set (get_all_users db). \<exists>d. candidate_outcome verify db frame c = Some (d, True)"
    by blast
  from scan_min [OF get_all_users_resolve ex] obtain c' d' where
    r: "scan verify db frame (get_all_users db) None = Inr (Some (c', d'))"
    and c': "c' \<in> set (get_all_users db)"
    and v': "candidate_outcome verify db frame c' = Some (d', True)"
    and least: "\<forall>c''\<in>set (get_all_users db). \<forall>d''.
        candidate_outcome verify db frame c'' = Some (d'', True) \<longrightarrow> d' \<le> d''"
    by blast
  have "\<not> P c'"
  proof
    assume "P c'"
    then have "verify_raises verify db frame c'" using assms(2) c' by blast
    then have "candidate_outcome verify db frame c' = None" by (rule raises_no_outcome)
    with v' show False by simp
  qed
  moreover have "d' \<le> d" using least c v by blast
  ultimately show "\<exists>c' d'. scan verify db frame (get_all_users db) None = Inr (Some (c', d'))
             \<and> c' \<in> set (get_all_users db) \<and> \<not> P c'
             \<and> candidate_outcome verify db frame c' = Some (d', True) \<and> d' \<le> d"
    using r c' v' by blast
next
  assume "\<exists>c\<in>set (get_all_users db). \<not> P c"
  then show "fst (recognize_face verify (remove_users P db) frame now)
            = fst (recognize_face verify db frame now)"
    by (rule recognize_face_remove_users(1) [OF assms])
next
  assume "\<exists>c\<in>set (get_all_users db). \<not> P c"
  then show "attendance (snd (recognize_face verify (remove_users P db) frame now))
            = attendance (snd (recognize_face verify db frame now))"
    by (rule recognize_face_remove_users(2) [OF assms])
next
  assume a: "(\<forall>c\<in>set (get_all_users db). P c) \<and> get_all_users db \<noteq> []
          \<and> (\<exists>s. detect_liveness frame = Inr (True, s))"
  then have "filter (\<lambda>c. \<not> P c) (get_all_users db) = []"
    by (simp add: filter_empty_conv)
  then have "scan verify db frame (get_all_users db) None = Inr None"
    using scan_filter_raising [OF assms(2), of None] by simp
  then show "fst (recognize_face verify db frame now) = Face_not_recognized"
    using a by (auto simp: recognize_face_fst)
qed

lemma trio_distinct: "distinct (map name (users trio_store))"
  by (simp add: trio_store_def alice_row_def bob_row_def carol_row_def)

theorem raising_candidates_are_skipped_witness:
  "distinct (map name (users trio_store))
   \<and> verify_raises by_reference trio_store bw_frame (3, ''carol'')
   \<and> scan by_reference trio_store bw_frame (get_all_users trio_store) None
       = Inr (Some ((2, ''bob''), 1 / 10))
   \<and> scan by_reference trio_store bw_frame
         (filter (\<lambda>c. \<not> is_carol c) (get_all_users trio_store)) None
       = Inr (Some ((2, ''bob''), 1 / 10))
   \<and> fst (recognize_face by_reference (remove_users is_carol trio_store) bw_frame 1000)
       = fst (recognize_face by_reference trio_store bw_frame 1000)"
proof -
  have h: "\<forall>c\<in>set (get_all_users trio_store). is_carol c \<longrightarrow>
      verify_raises by_reference trio_store bw_frame c"
    using carol_raises by (simp add: is_carol_def)
  have keep: "\<exists>c\<in>set (get_all_users trio_store). \<not> is_carol c"
    by (simp add: gallery_trio is_carol_def)
  have ev: "scan by_reference trio_store bw_frame (get_all_users trio_store) None
       = Inr (Some ((2, ''bob''), 1 / 10))"
    by (simp only: gallery_trio scan_trio)
  note t = raising_candidates_are_skipped [OF trio_distinct h, of 1000]
  from t obtain b' where
    "scan by_reference trio_store bw_frame (get_all_users trio_store) None = Inr b'"
    "scan by_reference trio_store bw_frame
         (filter (\<lambda>c. \<not> is_carol c) (get_all_users trio_store)) None = Inr b'"
    by blast
  with ev have "scan by_reference trio_store bw_frame
         (filter (\<lambda>c. \<not> is_carol c) (get_all_users trio_store)) None
       = Inr (Some ((2, ''bob''), 1 / 10))"
    by simp
  moreover from t keep have
    "fst (recognize_face by_reference (remove_users is_carol trio_store) bw_frame 1000)
       = fst (recognize_face by_reference trio_store bw_frame 1000)"
    by blast
  ultimately show ?thesis
    using trio_distinct carol_raises ev by blast
qed

subsection \<open>Punches in sequence\<close>

lemma recognize_alice_step:
  assumes "users db = [alice_row]" and "faces db ''database/faces/alice_100.jpg'' = Some img"
  shows "recognize_face accept_all db bw_frame now =
     (Punched ''alice'' (next_punch_type (get_today_attendance db 1 now)) (4 / 5) (1 / 2) now,
      record_attendance db 1 (next_punch_type (get_today_attendance db 1 now)) (4 / 5) now)"
proof -
  have g: "get_all_users db = [(1, ''alice'')]"
    by (simp add: get_all_users_def assms(1) alice_row_def)
  have "scan accept_all db bw_frame [(1, ''alice'')] None = Inr (Some ((1, ''alice''), 1 / 5))"
    by (simp add: get_user_by_name_def assms alice_row_def DeepFace_verify_def accept_all_def)
  then show ?thesis
    by (simp add: recognize_face_def detect_liveness_bw_frame g Let_def)
qed

lemma today_punch1: "get_today_attendance punch1_store 1 1000 = [(''PUNCH-IN'', 1000)]"
  by (simp add: get_today_attendance_def punch1_store_def record_attendance_def alice_store_def
      date_of_def)

lemma today_punch2:
  "get_today_attendance punch2_store 1 1001 = [(''PUNCH-IN'', 1000), (''PUNCH-OUT'', 1000)]"
  by (simp add: get_today_attendance_def punch2_store_def punch1_store_def
      record_attendance_def alice_store_def date_of_def)

lemma alice_store_parts:
  "users alice_store = [alice_row]"
  "faces alice_store ''database/faces/alice_100.jpg'' = Some bw_frame"
  by (simp_all add: alice_store_def)

lemma recognize_first_punch:
  "recognize_face accept_all alice_store bw_frame 1000
     = (Punched ''alice'' ''PUNCH-IN'' (4 / 5) (1 / 2) 1000, punch1_store)"
  using recognize_alice_step [OF alice_store_parts, of 1000]
  by (simp add: today_alice_empty [unfolded One_nat_def] next_punch_type_def punch1_store_def)

lemma recognize_second_punch:
  "recognize_face accept_all punch1_store bw_frame 1000
     = (Punched ''alice'' ''PUNCH-OUT'' (4 / 5) (1 / 2) 1000, punch2_store)"
proof -
  have "users punch1_store = [alice_row]"
    "faces punch1_store ''database/faces/alice_100.jpg'' = Some bw_frame"
    by (simp_all add: punch1_store_def record_attendance_frame alice_store_parts)
  from recognize_alice_step [OF this, of 1000] show ?thesis
    by (simp add: today_punch1 [unfolded One_nat_def] next_punch_type_def punch2_store_def)
qed

lemma recognize_third_punch:
  "recognize_face accept_all punch2_store bw_frame 1001
     = (Punched ''alice'' ''PUNCH-OUT'' (4 / 5) (1 / 2) 1001, punch3_store)"
proof -
  have "users punch2_store = [alice_row]"
    "faces punch2_store ''database/faces/alice_100.jpg'' = Some bw_frame"
    by (simp_all add: punch2_store_def punch1_store_def record_attendance_frame alice_store_parts)
  from recognize_alice_step [OF this, of 1001] show ?thesis
    by (simp add: today_punch2 [unfolded One_nat_def] next_punch_type_def punch3_store_def)
qed

lemma run_three_punches: "run accept_all alice_store
        [(Authenticate bw_frame, 1000), (Authenticate bw_frame, 1000), (Authenticate bw_frame, 1001)] = punch3_store"
  by (simp add: run_def recognize_first_punch recognize_second_punch recognize_third_punch)

text \<open>
  Claim C1 fails on the code when two punches of one user fall in the same second.
  The rows of today come back ordered by timestamp alone, rows of one second in rowid
  order, so the first row is then the older of the two. Three recognitions of
  \<^verbatim>\<open>alice\<close>, at seconds 1000, 1000 and 1001 of one day, are recorded as
  \<^verbatim>\<open>PUNCH-IN\<close>, \<^verbatim>\<open>PUNCH-OUT\<close>, \<^verbatim>\<open>PUNCH-OUT\<close>.
\<close>

theorem same_second_punches_do_not_alternate:
  "map punch_type (attendance (run accept_all alice_store
        [(Authenticate bw_frame, 1000), (Authenticate bw_frame, 1000), (Authenticate bw_frame, 1001)]))
     = [''PUNCH-IN'', ''PUNCH-OUT'', ''PUNCH-OUT'']
   \<and> map timestamp (attendance (run accept_all alice_store
        [(Authenticate bw_frame, 1000), (Authenticate bw_frame, 1000), (Authenticate bw_frame, 1001)]))
     = [1000, 1000, 1001]"
  unfolding run_three_punches
  by (simp add: punch3_store_def punch2_store_def punch1_store_def record_attendance_def
      alice_store_def)

text \<open>
  Claim C10 fails on the code at the same input, by the same defect. After the two
  punches of second 1000 the most recent punch of \<^verbatim>\<open>alice\<close> is the \<^verbatim>\<open>PUNCH-OUT\<close> of
  row 2, which is not \<^verbatim>\<open>PUNCH-IN\<close>; the first row of today's list is the older
  \<^verbatim>\<open>PUNCH-IN\<close> of row 1, and the punch written next is \<^verbatim>\<open>PUNCH-OUT\<close>.
\<close>

theorem most_recent_exit_followed_by_exit:
  "run accept_all alice_store [(Authenticate bw_frame, 1000), (Authenticate bw_frame, 1000)]
     = punch2_store
   \<and> map record_id (attendance punch2_store) = [1, 2]
   \<and> map punch_type (attendance punch2_store) = [''PUNCH-IN'', ''PUNCH-OUT'']
   \<and> map timestamp (attendance punch2_store) = [1000, 1000]
   \<and> get_today_attendance punch2_store 1 1001 = [(''PUNCH-IN'', 1000), (''PUNCH-OUT'', 1000)]
   \<and> fst (recognize_face accept_all punch2_store bw_frame 1001)
       = Punched ''alice'' ''PUNCH-OUT'' (4 / 5) (1 / 2) 1001"
proof -
  have "run accept_all alice_store [(Authenticate bw_frame, 1000), (Authenticate bw_frame, 1000)]
      = punch2_store"
    by (simp add: run_def recognize_first_punch recognize_second_punch)
  moreover have "map record_id (attendance punch2_store) = [1, 2]"
    "map punch_type (attendance punch2_store) = [''PUNCH-IN'', ''PUNCH-OUT'']"
    "map timestamp (attendance punch2_store) = [1000, 1000]"
    by (simp_all add: punch2_store_def punch1_store_def record_attendance_def alice_store_def
        next_rowid_def)
  ultimately show ?thesis
    using today_punch2 recognize_third_punch by simp
qed

lemma foldr_insort_front:
  assumes "\<forall>y\<in>set xs. g x < g y"
  shows "foldr (insort_key g) xs (x # zs) = x # foldr (insort_key g) xs zs"
  using assms by (induction xs) auto

lemma sort_key_snoc_least:
  assumes "\<forall>y\<in>set xs. g x < g y"
  shows "sort_key g (xs @ [x]) = x # sort_key g xs"
  using foldr_insort_front [OF assms, of "[]"] by (simp add: sort_key_def)

lemma sort_key_newest_first:
  fixes xs :: "attendance_row list"
  assumes "sorted_wrt (<) (map timestamp xs)"
  shows "sort_key (\<lambda>r. - int (timestamp r)) (filter P xs) = rev (filter P xs)"
  using assms
proof (induction xs rule: rev_induct)
  case Nil
  then show ?case by simp
next
  case (snoc x xs)
  have inc: "sorted_wrt (<) (map timestamp xs)" and lt: "\<forall>y\<in>set xs. timestamp y < timestamp x"
    using snoc.prems by (auto simp: sorted_wrt_append)
  show ?case
  proof (cases "P x")
    case True
    have "\<forall>y\<in>set (filter P xs). - int (timestamp x) < - int (timestamp y)"
      using lt by simp
    then have "sort_key (\<lambda>r. - int (timestamp r)) (filter P xs @ [x])
        = x # sort_key (\<lambda>r. - int (timestamp r)) (filter P xs)"
      by (rule sort_key_snoc_least)
    then show ?thesis
      using True snoc.IH [OF inc] by simp
  next
    case False
    then show ?thesis
      using snoc.IH [OF inc] by simp
  qed
qed

lemma get_today_attendance_newest_first:
  assumes "sorted_wrt (<) (map timestamp (attendance db))"
  shows "get_today_attendance db uid now
     = rev (map (\<lambda>r. (punch_type r, timestamp r)) (today_rows db uid now))"
  unfolding get_today_attendance_def today_rows_def
  by (simp add: sort_key_newest_first [OF assms] rev_map)

lemma next_punch_type_last:
  "next_punch_type (rev (map (\<lambda>r. (punch_type r, timestamp r)) rs))
     = (if rs = [] then ''PUNCH-IN''
        else if punch_type (last rs) = ''PUNCH-IN'' then ''PUNCH-OUT'' else ''PUNCH-IN'')"
  by (induction rs rule: rev_induct) (simp_all add: next_punch_type_def)

lemma alternates_snoc:
  "alternates ps \<Longrightarrow>
   alternates (ps @ [if ps = [] then ''PUNCH-IN''
                     else if last ps = ''PUNCH-IN'' then ''PUNCH-OUT'' else ''PUNCH-IN''])"
  by (induction ps rule: alternates.induct) auto

text \<open>
  When every stored timestamp is earlier than the second of the request and the stored
  timestamps increase with the rowid, the punches of the matched user alternate after
  the request if they did before, and both conditions on the timestamps hold again for
  any later second.
\<close>

lemma strictly_later_punches_alternate:
  assumes inc: "sorted_wrt (<) (map timestamp (attendance db))"
    and later: "\<forall>r\<in>set (attendance db). timestamp r < now"
    and alt: "alternates (map punch_type (today_rows db uid now))"
    and rec: "recognize_face verify db frame now = (Punched n p c s t, db')"
    and sc: "scan verify db frame (get_all_users db) None = Inr (Some ((uid, n'), d))"
  shows "alternates (map punch_type (today_rows db' uid now))
     \<and> sorted_wrt (<) (map timestamp (attendance db'))
     \<and> (\<forall>r\<in>set (attendance db'). timestamp r \<le> now)"
proof -
  let ?rs = "today_rows db uid now"
  from rec [unfolded recognize_face_Punched] sc
  have p: "p = next_punch_type (get_today_attendance db uid now)"
    and db': "db' = record_attendance db uid p c now"
    by auto
  have p': "p = (if map punch_type ?rs = [] then ''PUNCH-IN''
        else if last (map punch_type ?rs) = ''PUNCH-IN'' then ''PUNCH-OUT'' else ''PUNCH-IN'')"
    unfolding p get_today_attendance_newest_first [OF inc] next_punch_type_last
    by (simp add: last_map)
  have "map punch_type (today_rows db' uid now) = map punch_type ?rs @ [p]"
    by (simp add: db' today_rows_def record_attendance_def)
  moreover have "alternates (map punch_type ?rs @ [p])"
    unfolding p' using alt by (rule alternates_snoc)
  moreover have "sorted_wrt (<) (map timestamp (attendance db'))"
    using inc later by (auto simp: db' record_attendance_def sorted_wrt_append)
  moreover have "\<forall>r\<in>set (attendance db'). timestamp r \<le> now"
    using later by (auto simp: db' record_attendance_def)
  ultimately show ?thesis by simp
qed

text \<open>
  When the stored timestamps increase with the rowid, the first row of today's list
  is the most recent punch of the user, and the punch written depends on that punch
  alone.
\<close>

lemma punch_type_from_most_recent:
  assumes "sorted_wrt (<) (map timestamp (attendance db))"
    and "recognize_face verify db frame now = (Punched n ptype c s t, db')"
    and "scan verify db frame (get_all_users db) None = Inr (Some ((uid, n'), d))"
    and "today_rows db uid now \<noteq> []"
  shows "ptype = (if punch_type (last (today_rows db uid now)) = ''PUNCH-IN''
                  then ''PUNCH-OUT'' else ''PUNCH-IN'')"
proof -
  from assms(2) [unfolded recognize_face_Punched] assms(3)
  have "ptype = next_punch_type (get_today_attendance db uid now)"
    by auto
  then show ?thesis
    unfolding get_today_attendance_newest_first [OF assms(1)] next_punch_type_last
    using assms(4) by simp
qed

end
